theory Spec2Isabelle
  imports Main
begin

section \<open>Tree edit distance between constituency trees: the string layer\<close>

text \<open>
  The class \<open>TreeEditDistanceCalculator\<close> of \<open>easyted/ted.py\<close> turns two parse trees into
  bracketed strings, strips their category labels and hands the two skeleton strings to a
  tree edit distance engine. Python strings are modelled as \<open>string\<close>.
\<close>

subsection \<open>Regular expressions of \<open>remove_non_terminal_labels\<close>\<close>

text \<open>The character class \<open>[A-Z$]\<close> of the first pattern.\<close>

definition is_label_char :: "char \<Rightarrow> bool" where
  "is_label_char c =
     (((65::nat) \<le> of_char c \<and> of_char c \<le> (90::nat)) \<or> c = CHR ''$'')"

text \<open>
  The class \<open>\s\<close> of the second pattern on the code points below 256: tab, line feed,
  vertical tab, form feed, carriage return, the separators \<open>0x1c\<close> to \<open>0x1f\<close>, the space,
  \<open>0x85\<close> and \<open>0xa0\<close>.
\<close>

definition is_space :: "char \<Rightarrow> bool" where
  "is_space c = (of_char c \<in> {9, 10, 11, 12, 13, 28, 29, 30, 31, 32, 133, 160 :: nat})"

text \<open>
  \<open>re.sub(r'\([A-Z$]+ ', '(', s)\<close>: the string is scanned from the left; at an opening
  parenthesis followed by a non-empty run of label characters and then one space, the whole
  match is replaced by the parenthesis and the scan goes on after the space. The run is
  maximal: a shorter run would have to be followed by a space, which is no label character.
  Anywhere else the character is copied.
\<close>

function sub_labels :: "string \<Rightarrow> string" where
  "sub_labels [] = []"
| "sub_labels (c # cs) =
     (if c = CHR ''('' \<and> takeWhile is_label_char cs \<noteq> []
         \<and> dropWhile is_label_char cs \<noteq> []
         \<and> hd (dropWhile is_label_char cs) = CHR '' ''
      then CHR ''('' # sub_labels (tl (dropWhile is_label_char cs))
      else c # sub_labels cs)"
  by pat_completeness auto
termination
proof (relation "measure length")
  show "wf (measure length)" by simp
next
  fix c :: char and cs :: string
  have "length (tl (dropWhile is_label_char cs)) \<le> length cs"
    using length_dropWhile_le [of is_label_char cs] by simp
  then show "(tl (dropWhile is_label_char cs), c # cs) \<in> measure length"
    by simp
next
  fix c :: char and cs :: string
  show "(cs, c # cs) \<in> measure length" by simp
qed

text \<open>\<open>re.sub(r'\s+', '', s)\<close>: every whitespace character is deleted.\<close>

definition sub_spaces :: "string \<Rightarrow> string" where
  "sub_spaces s = filter (\<lambda>c. \<not> is_space c) s"

definition remove_non_terminal_labels :: "string \<Rightarrow> string" where
  "remove_non_terminal_labels tree_string = sub_spaces (sub_labels tree_string)"

text \<open>\<open>s.replace(")", "}").replace("(", "{")\<close>.\<close>

definition replace_char :: "char \<Rightarrow> char \<Rightarrow> string \<Rightarrow> string" where
  "replace_char old new s = map (\<lambda>c. if c = old then new else c) s"

definition clean_string :: "string \<Rightarrow> string" where
  "clean_string tree_string =
     replace_char (CHR ''('') (CHR ''{'')
       (replace_char (CHR '')'') (CHR ''}'') (remove_non_terminal_labels tree_string))"

text \<open>
  Both replacements at once, on one character, and the characters that carry the structure
  of a bracketed text or of a skeleton.
\<close>

definition to_brace :: "char \<Rightarrow> char" where
  "to_brace c = (if c = CHR ''('' then CHR ''{'' else if c = CHR '')'' then CHR ''}'' else c)"

definition structural :: "char \<Rightarrow> bool" where
  "structural c = (c = CHR ''('' \<or> c = CHR '')'' \<or> c = CHR ''{'' \<or> c = CHR ''}'')"


section \<open>Python values and exceptions\<close>

text \<open>
  The arguments of \<open>calculate_ted\<close> are not typed at run time: \<open>sent1\<close>, \<open>sent2\<close> and
  \<open>depth\<close> may be any object. \<open>PBool\<close> is kept apart from \<open>PInt\<close> because \<open>bool\<close> is a
  subclass of \<open>int\<close> (so \<open>isinstance(True, int)\<close> holds) but \<open>True == 1\<close> is no string;
  \<open>PObject\<close> stands for an object of any other type that has no order against \<open>int\<close>
  (a list, a dict, ...).
\<close>

datatype pyval = PStr string | PInt int | PBool bool | PNone | PObject

datatype message =
    Sentences_must_be_strings
  | Depth_must_be_full_or_non_negative
  | Int_and_str_not_ordered
  | Int_and_object_not_ordered

datatype error =
    TypeError message
  | AttributeError
  | FormatError
  | External string

fun is_str :: "pyval \<Rightarrow> bool" where
  "is_str (PStr s) = True"
| "is_str v = False"

fun is_int :: "pyval \<Rightarrow> bool" where
  "is_int (PInt i) = True"
| "is_int (PBool b) = True"
| "is_int v = False"

fun int_value :: "pyval \<Rightarrow> int" where
  "int_value (PInt i) = i"
| "int_value (PBool b) = (if b then 1 else 0)"
| "int_value v = 0"

fun str_value :: "pyval \<Rightarrow> string" where
  "str_value (PStr s) = s"
| "str_value v = []"

section \<open>Parse trees\<close>

text \<open>
  An NLTK tree is a list of children with a label; a child is a tree or a token (a string).
\<close>

datatype tree = Leaf string | Node string "tree list"

definition max_list :: "nat list \<Rightarrow> nat" where
  "max_list xs = foldr max xs 0"

text \<open>
  Modelled from the spec: the methods \<open>height()\<close>, \<open>leaves()\<close> and the truth value of a
  tree belong to the \<open>nltk\<close> class, which is not part of the source file. A token has height
  1, a tree is one higher than its highest child, \<open>leaves()\<close> lists the tokens from left to
  right, and a tree is false exactly when it has no child (a string, when it is empty).
\<close>

fun height :: "tree \<Rightarrow> nat" where
  "height (Leaf s) = 1"
| "height (Node l cs) = 1 + max_list (map height cs)"

fun leaves :: "tree \<Rightarrow> string list" where
  "leaves (Leaf s) = [s]"
| "leaves (Node l cs) = concat (map leaves cs)"

fun falsy :: "tree \<Rightarrow> bool" where
  "falsy (Leaf s) = (s = [])"
| "falsy (Node l cs) = (cs = [])"

text \<open>\<open>" ".join(xs)\<close>\<close>

fun join :: "string list \<Rightarrow> string" where
  "join [] = []"
| "join [x] = x"
| "join (x # y # ys) = x @ '' '' @ join (y # ys)"

section \<open>Depth-limited rendering\<close>

text \<open>
  \<open>max_depth is not None and current_depth > max_depth\<close>. Comparing an \<open>int\<close> with a
  \<open>str\<close> raises \<open>TypeError\<close>.
\<close>

fun depth_exceeded :: "pyval \<Rightarrow> int \<Rightarrow> error + bool" where
  "depth_exceeded PNone current_depth = Inr False"
| "depth_exceeded (PInt m) current_depth = Inr (current_depth > m)"
| "depth_exceeded (PBool b) current_depth = Inr (current_depth > (if b then 1 else 0))"
| "depth_exceeded (PStr s) current_depth = Inl (TypeError Int_and_str_not_ordered)"
| "depth_exceeded PObject current_depth = Inl (TypeError Int_and_object_not_ordered)"

text \<open>
  The \<open>+=\<close> of the loop over the children: the pieces are concatenated from left to right,
  and the first child that raises ends the loop.
\<close>

fun concat_results :: "(error + string) list \<Rightarrow> error + string" where
  "concat_results [] = Inr []"
| "concat_results (Inl e # rs) = Inl e"
| "concat_results (Inr s # rs) =
     (case concat_results rs of Inl e \<Rightarrow> Inl e | Inr t \<Rightarrow> Inr (s @ t))"

text \<open>
  \<open>nltk_tree_to_n_bracket_string(tree, max_depth, current_depth)\<close>. A token has no method
  \<open>label\<close>: reaching \<open>tree.label()\<close> with a non-empty string raises \<open>AttributeError\<close>.
\<close>

fun nltk_tree_to_n_bracket_string :: "tree \<Rightarrow> pyval \<Rightarrow> int \<Rightarrow> error + string" where
  "nltk_tree_to_n_bracket_string (Leaf s) max_depth current_depth =
     (case depth_exceeded max_depth current_depth of
        Inl e \<Rightarrow> Inl e
      | Inr past \<Rightarrow>
          if past \<or> falsy (Leaf s) then Inr []
          else Inl AttributeError)"
| "nltk_tree_to_n_bracket_string (Node l cs) max_depth current_depth =
     (case depth_exceeded max_depth current_depth of
        Inl e \<Rightarrow> Inl e
      | Inr past \<Rightarrow>
          if past \<or> falsy (Node l cs) then Inr []
          else if height (Node l cs) > 2 then
            (case concat_results
                    (map (\<lambda>child. nltk_tree_to_n_bracket_string child max_depth
                                     (current_depth + 1)) cs) of
               Inl e \<Rightarrow> Inl e
             | Inr body \<Rightarrow> Inr (''('' @ l @ '' '' @ body @ '')''))
          else Inr (''('' @ l @ '' '' @ join (leaves (Node l cs)) @ '')''))"

text \<open>
  \<open>nltk_tree_to_bracket_string(tree)\<close>. The rendering \<open>str(tree)\<close> is NLTK's and is taken
  as the parameter \<open>str\<close>.
\<close>

definition nltk_tree_to_bracket_string :: "(tree \<Rightarrow> string) \<Rightarrow> tree \<Rightarrow> string" where
  "nltk_tree_to_bracket_string str t =
     replace_char (CHR ''('') (CHR ''{'')
       (replace_char (CHR '')'') (CHR ''}'') (remove_non_terminal_labels (str t)))"


section \<open>The parser of bracketed text\<close>

text \<open>
  Modelled from the spec: the parser of the bracketed notation (in the source it is
  \<open>NLTKTree.fromstring\<close>, which is missing from the source file). The text is cut into
  parentheses and words; whitespace separates words and is otherwise insignificant.
\<close>

datatype token = LParen | RParen | Word string

definition flush :: "string \<Rightarrow> token list" where
  "flush w = (if w = [] then [] else [Word w])"

fun tokenize_from :: "string \<Rightarrow> string \<Rightarrow> token list" where
  "tokenize_from w [] = flush w"
| "tokenize_from w (c # cs) =
     (if c = CHR ''('' then flush w @ LParen # tokenize_from [] cs
      else if c = CHR '')'' then flush w @ RParen # tokenize_from [] cs
      else if is_space c then flush w @ tokenize_from [] cs
      else tokenize_from (w @ [c]) cs)"

definition tokenize :: "string \<Rightarrow> token list" where
  "tokenize text = tokenize_from [] text"

text \<open>
  Modelled from the spec: the grammar is \<open>tree := '(' LABEL (tree | TOKEN)+ ')'\<close>. The
  parser keeps the open nodes (innermost first, each with its label and the children read
  so far), the finished tree, and whether an opening parenthesis still waits for its label.
  A format error is raised when a label is missing after an opening parenthesis, when a
  node is closed without a child, when a parenthesis closes nothing, when a token stands
  outside the tree, and at the end when a node is still open or no tree was read.
\<close>

record parser =
  frames :: "(string \<times> tree list) list"
  finished :: "tree option"
  pending :: bool

fun parse_step :: "token \<Rightarrow> parser \<Rightarrow> error + parser" where
  "parse_step tok p =
     (if pending p then
        (case tok of
           Word l \<Rightarrow> Inr (p\<lparr>frames := (l, []) # frames p, pending := False\<rparr>)
         | _ \<Rightarrow> Inl FormatError)
      else
        (case tok of
           LParen \<Rightarrow> if finished p = None then Inr (p\<lparr>pending := True\<rparr>) else Inl FormatError
         | RParen \<Rightarrow>
             (case frames p of
                [] \<Rightarrow> Inl FormatError
              | (l, cs) # rest \<Rightarrow>
                  if cs = [] then Inl FormatError
                  else (case rest of
                     [] \<Rightarrow> Inr (p\<lparr>frames := [], finished := Some (Node l cs)\<rparr>)
                   | (l', cs') # rest' \<Rightarrow>
                       Inr (p\<lparr>frames := (l', cs' @ [Node l cs]) # rest'\<rparr>)))
         | Word w \<Rightarrow>
             (case frames p of
                [] \<Rightarrow> Inl FormatError
              | (l, cs) # rest \<Rightarrow> Inr (p\<lparr>frames := (l, cs @ [Leaf w]) # rest\<rparr>))))"

fun parse_run :: "token list \<Rightarrow> parser \<Rightarrow> error + parser" where
  "parse_run [] p = Inr p"
| "parse_run (tok # toks) p =
     (case parse_step tok p of Inl e \<Rightarrow> Inl e | Inr p' \<Rightarrow> parse_run toks p')"

definition parse :: "string \<Rightarrow> error + tree" where
  "parse text =
     (case parse_run (tokenize text) \<lparr>frames = [], finished = None, pending = False\<rparr> of
        Inl e \<Rightarrow> Inl e
      | Inr p \<Rightarrow>
          (case finished p of
             Some t \<Rightarrow> if frames p = [] \<and> \<not> pending p then Inr t else Inl FormatError
           | None \<Rightarrow> Inl FormatError))"

text \<open>
  A text has balanced delimiters when no closing parenthesis comes without an open one
  before it and none stays open at the end. \<open>token_balance\<close> is the same on tokens, and
  \<open>open_nodes\<close> counts the parentheses a parser state has open.
\<close>

fun balance :: "string \<Rightarrow> nat \<Rightarrow> bool" where
  "balance [] n = (n = 0)"
| "balance (c # cs) n =
     (if c = CHR ''('' then balance cs (n + 1)
      else if c = CHR '')'' then n > 0 \<and> balance cs (n - 1)
      else balance cs n)"

definition balanced :: "string \<Rightarrow> bool" where
  "balanced text = balance text 0"


fun token_balance :: "token list \<Rightarrow> nat \<Rightarrow> bool" where
  "token_balance [] n = (n = 0)"
| "token_balance (LParen # toks) n = token_balance toks (n + 1)"
| "token_balance (RParen # toks) n = (n > 0 \<and> token_balance toks (n - 1))"
| "token_balance (Word w # toks) n = token_balance toks n"

definition open_nodes :: "parser \<Rightarrow> nat" where
  "open_nodes p = length (frames p) + (if pending p then 1 else 0)"

section \<open>The edit distance engine\<close>

text \<open>
  The engine is the library \<open>apted\<close>: \<open>APTEDTree.from_text\<close> reads a skeleton string and
  \<open>APTED(...).compute_edit_distance()\<close> returns the distance. Neither is part of the source
  file; both are modelled from the design the spec gives for them.
\<close>

datatype atree = ANode string "atree list"

text \<open>
  Modelled from the spec: the reader of the skeleton form (\<open>apted\<close>'s \<open>from_text\<close> is
  missing from the source). The braces are the structural delimiters: \<open>{\<close> opens a node,
  \<open>}\<close> closes the innermost open node, any other character belongs to the label of the
  innermost open node. Unbalanced braces, text outside any node and a text that does not
  hold exactly one tree (the empty text among them) are format errors.

  The state is the stack of the open nodes (innermost first, each with its label and the
  children closed so far) and the trees closed at top level.
\<close>

type_synonym reader = "(string \<times> atree list) list \<times> atree list"

fun from_text_step :: "char \<Rightarrow> reader \<Rightarrow> error + reader" where
  "from_text_step c (stack, roots) =
     (if c = CHR ''{'' then Inr (([], []) # stack, roots)
      else if c = CHR ''}'' then
        (case stack of
           [] \<Rightarrow> Inl FormatError
         | (l, cs) # [] \<Rightarrow> Inr ([], roots @ [ANode l cs])
         | (l, cs) # (l', cs') # rest \<Rightarrow> Inr ((l', cs' @ [ANode l cs]) # rest, roots))
      else
        (case stack of
           [] \<Rightarrow> Inl FormatError
         | (l, cs) # rest \<Rightarrow> Inr ((l @ [c], cs) # rest, roots)))"

fun from_text_run :: "string \<Rightarrow> reader \<Rightarrow> error + reader" where
  "from_text_run [] st = Inr st"
| "from_text_run (c # cs) st =
     (case from_text_step c st of Inl e \<Rightarrow> Inl e | Inr st' \<Rightarrow> from_text_run cs st')"

definition from_text :: "string \<Rightarrow> error + atree" where
  "from_text text =
     (case from_text_run text ([], []) of
        Inl e \<Rightarrow> Inl e
      | Inr (stack, roots) \<Rightarrow>
          (case (stack, roots) of ([], [t]) \<Rightarrow> Inr t | _ \<Rightarrow> Inl FormatError))"

fun nodes :: "atree \<Rightarrow> nat" where
  "nodes (ANode a cs) = 1 + sum_list (map nodes cs)"

definition forest_nodes :: "atree list \<Rightarrow> nat" where
  "forest_nodes F = sum_list (map nodes F)"

text \<open>The default cost of a rename: 0 if the labels are equal, else 1.\<close>

definition rename_cost :: "string \<Rightarrow> string \<Rightarrow> nat" where
  "rename_cost a b = (if a = b then 0 else 1)"

text \<open>
  Modelled from the spec: the distance of the engine (\<open>apted\<close>'s \<open>compute_edit_distance\<close>
  is missing from the source), by the recurrence of the design on forests, with the default
  costs: the first root of the left forest is deleted (cost 1, its children take its place),
  or the first root of the right forest is inserted (cost 1), or the one is renamed into the
  other, their children being paired with each other and the remaining trees with each other.
\<close>

function forest_distance :: "atree list \<Rightarrow> atree list \<Rightarrow> nat" where
  "forest_distance [] [] = 0"
| "forest_distance (ANode a cs # F) [] = forest_distance (cs @ F) [] + 1"
| "forest_distance [] (ANode b ds # G) = forest_distance [] (ds @ G) + 1"
| "forest_distance (ANode a cs # F) (ANode b ds # G) =
     min (min (forest_distance (cs @ F) (ANode b ds # G) + 1)
              (forest_distance (ANode a cs # F) (ds @ G) + 1))
         (forest_distance cs ds + forest_distance F G + rename_cost a b)"
  by pat_completeness auto
termination
  by (relation "measure (\<lambda>(F, G). forest_nodes F + forest_nodes G)")
     (simp_all add: forest_nodes_def)

definition compute_edit_distance :: "atree \<Rightarrow> atree \<Rightarrow> nat" where
  "compute_edit_distance t1 t2 = forest_distance [t1] [t2]"

section \<open>The distance of two sentences\<close>

text \<open>
  The collaborators of \<open>calculate_ted\<close> outside the source file are parameters:
  \<open>constituency s\<close> is \<open>str(self.get_constituency_tree(s))\<close>, the bracketed text of the parse
  the pipeline returns for a sentence (or the exception it raises), \<open>fromstring\<close> is
  \<open>NLTKTree.fromstring\<close>, and \<open>tree_str\<close> is \<open>str\<close> on an NLTK tree.
\<close>

record collaborators =
  constituency :: "string \<Rightarrow> error + string"
  fromstring :: "string \<Rightarrow> error + tree"
  tree_str :: "tree \<Rightarrow> string"

text \<open>The two checks at the head of \<open>calculate_ted\<close>.\<close>

definition check_arguments :: "pyval \<Rightarrow> pyval \<Rightarrow> pyval \<Rightarrow> error option" where
  "check_arguments sent1 sent2 depth =
     (if \<not> is_str sent1 \<or> \<not> is_str sent2 then Some (TypeError Sentences_must_be_strings)
      else if \<not> (is_str depth \<or> is_int depth) \<or> (is_int depth \<and> int_value depth < 0)
      then Some (TypeError Depth_must_be_full_or_non_negative)
      else None)"

text \<open>\<open>max_depth = None if depth == 'full' else depth\<close>\<close>

definition max_depth_of :: "pyval \<Rightarrow> pyval" where
  "max_depth_of depth = (if depth = PStr ''full'' then PNone else depth)"

definition tree_string :: "(tree \<Rightarrow> string) \<Rightarrow> tree \<Rightarrow> pyval \<Rightarrow> error + string" where
  "tree_string str t max_depth =
     (if max_depth = PNone then Inr (nltk_tree_to_bracket_string str t)
      else nltk_tree_to_n_bracket_string t max_depth 0)"

text \<open>
  Lines 174 to 185: from the two NLTK trees to the distance. The exceptions come in the
  order of the statements: the rendering of the first tree, of the second, the reading of
  the first skeleton, of the second.
\<close>

definition trees_distance :: "(tree \<Rightarrow> string) \<Rightarrow> tree \<Rightarrow> tree \<Rightarrow> pyval \<Rightarrow> error + nat" where
  "trees_distance str t1 t2 depth =
     (case tree_string str t1 (max_depth_of depth) of
        Inl e \<Rightarrow> Inl e
      | Inr s1 \<Rightarrow>
     (case tree_string str t2 (max_depth_of depth) of
        Inl e \<Rightarrow> Inl e
      | Inr s2 \<Rightarrow>
     (case from_text (clean_string s1) of
        Inl e \<Rightarrow> Inl e
      | Inr a1 \<Rightarrow>
     (case from_text (clean_string s2) of
        Inl e \<Rightarrow> Inl e
      | Inr a2 \<Rightarrow> Inr (compute_edit_distance a1 a2)))))"

text \<open>
  \<open>calculate_ted\<close> returns the sentences handed to the parsing pipeline, in the order of
  the calls, and the outcome: the exception raised or the distance.
\<close>

definition calculate_ted ::
  "collaborators \<Rightarrow> pyval \<Rightarrow> pyval \<Rightarrow> pyval \<Rightarrow> string list \<times> (error + nat)" where
  "calculate_ted X sent1 sent2 depth =
     (case check_arguments sent1 sent2 depth of
        Some e \<Rightarrow> ([], Inl e)
      | None \<Rightarrow>
     (case constituency X (str_value sent1) of
        Inl e \<Rightarrow> ([str_value sent1], Inl e)
      | Inr c1 \<Rightarrow>
     (case constituency X (str_value sent2) of
        Inl e \<Rightarrow> ([str_value sent1, str_value sent2], Inl e)
      | Inr c2 \<Rightarrow>
     (case fromstring X c1 of
        Inl e \<Rightarrow> ([str_value sent1, str_value sent2], Inl e)
      | Inr t1 \<Rightarrow>
     (case fromstring X c2 of
        Inl e \<Rightarrow> ([str_value sent1, str_value sent2], Inl e)
      | Inr t2 \<Rightarrow>
          ([str_value sent1, str_value sent2],
           trees_distance (tree_str X) t1 t2 depth))))))"


section \<open>The edit model\<close>

text \<open>
  The ordered-tree edit model the distance is measured in, on forests (a tree whose root is
  deleted leaves the forest of its children). One operation, with its cost, at the head of
  a forest: a node is inserted above the first trees of the forest, which become its
  children (cost 1); a root is deleted and its children take its place (cost 1); the label
  of a root is changed (cost 0 if the label stays, else 1). The last two rules apply an
  operation below a root and further to the right, so that it may happen at any node.
\<close>

inductive edit_op :: "atree list \<Rightarrow> nat \<Rightarrow> atree list \<Rightarrow> bool" where
  insert: "edit_op (cs @ F) 1 (ANode a cs # F)"
| delete: "edit_op (ANode a cs # F) 1 (cs @ F)"
| rename: "edit_op (ANode a cs # F) (rename_cost a b) (ANode b cs # F)"
| below: "edit_op cs c cs' \<Longrightarrow> edit_op (ANode a cs # F) c (ANode a cs' # F)"
| right: "edit_op F c F' \<Longrightarrow> edit_op (t # F) c (t # F')"

text \<open>An edit script is a sequence of operations; its cost is the sum of their costs.\<close>

inductive edit_script :: "atree list \<Rightarrow> nat \<Rightarrow> atree list \<Rightarrow> bool" where
  stop: "edit_script F 0 F"
| step: "edit_op F c G \<Longrightarrow> edit_script G n H \<Longrightarrow> edit_script F (c + n) H"

section \<open>Example trees and collaborators\<close>

text \<open>The two trees \<open>(S (NP (DT a)) (VP (V b)))\<close> and \<open>(S (NP (DT a)) (VP (V c)))\<close>.\<close>

definition tree_ab :: tree where
  "tree_ab =
     Node ''S'' [Node ''NP'' [Node ''DT'' [Leaf ''a'']], Node ''VP'' [Node ''V'' [Leaf ''b'']]]"

definition tree_ac :: tree where
  "tree_ac =
     Node ''S'' [Node ''NP'' [Node ''DT'' [Leaf ''a'']], Node ''VP'' [Node ''V'' [Leaf ''c'']]]"

text \<open>
  Modelled from the spec: the bracketed text of a tree on one line, by the grammar
  \<open>tree := '(' LABEL (tree | TOKEN)+ ')'\<close> with the children separated by one space
  (the rendering \<open>str\<close> of NLTK is missing from the source).
\<close>

fun flat_str :: "tree \<Rightarrow> string" where
  "flat_str (Leaf s) = s"
| "flat_str (Node l cs) = ''('' @ l @ '' '' @ join (map flat_str cs) @ '')''"

text \<open>
  Collaborators that never raise: the pipeline returns the sentence as the text of its
  parse, and the parser maps each text to the tree \<open>p\<close> gives for it.
\<close>

definition total_collaborators :: "(string \<Rightarrow> tree) \<Rightarrow> collaborators" where
  "total_collaborators p =
     \<lparr>constituency = (\<lambda>s. Inr s), fromstring = (\<lambda>s. Inr (p s)), tree_str = flat_str\<rparr>"

text \<open>Collaborators for a caller that hands in bracketed text: the text is parsed as it is.\<close>

definition text_collaborators :: collaborators where
  "text_collaborators =
     \<lparr>constituency = (\<lambda>s. Inr s), fromstring = parse, tree_str = flat_str\<rparr>"

section \<open>Well-formed trees and skeletons\<close>

text \<open>
  The trees a constituency parser returns: every node has children, which are either all
  tokens or all trees of this kind again, and no label and no token holds a parenthesis or
  a brace.
\<close>

definition plain :: "string \<Rightarrow> bool" where
  "plain s = list_all (\<lambda>c. \<not> structural c) s"

fun is_token :: "tree \<Rightarrow> bool" where
  "is_token (Leaf s) = plain s"
| "is_token (Node l cs) = False"

fun proper :: "tree \<Rightarrow> bool" where
  "proper (Leaf s) = False"
| "proper (Node l cs) =
     (plain l \<and> cs \<noteq> [] \<and> ((\<forall>c \<in> set cs. is_token c) \<or> (\<forall>c \<in> set cs. proper c)))"

text \<open>
  The nesting of a text: the number of delimiters that are open and the number of groups
  closed at top level; a closing delimiter with none open, and a character outside every
  group, have no nesting. Parentheses and braces count alike.
\<close>

fun nest_step :: "char \<Rightarrow> nat \<times> nat \<Rightarrow> (nat \<times> nat) option" where
  "nest_step c (k, r) =
     (if c = CHR ''('' \<or> c = CHR ''{'' then Some (k + 1, r)
      else if c = CHR '')'' \<or> c = CHR ''}'' then
        (if k = 0 then None else if k = 1 then Some (0, r + 1) else Some (k - 1, r))
      else if k = 0 then None else Some (k, r))"

fun nest_run :: "string \<Rightarrow> nat \<times> nat \<Rightarrow> (nat \<times> nat) option" where
  "nest_run [] st = Some st"
| "nest_run (c # cs) st = (case nest_step c st of None \<Rightarrow> None | Some st' \<Rightarrow> nest_run cs st')"

section \<open>Properties of the string layer\<close>


lemma sub_labels_hit:
  "takeWhile is_label_char cs \<noteq> [] \<Longrightarrow> dropWhile is_label_char cs = CHR '' '' # post
   \<Longrightarrow> sub_labels (CHR ''('' # cs) = CHR ''('' # sub_labels post"
  by simp

lemma sub_labels_miss:
  "\<not> (c = CHR ''('' \<and> takeWhile is_label_char cs \<noteq> []
         \<and> dropWhile is_label_char cs \<noteq> []
         \<and> hd (dropWhile is_label_char cs) = CHR '' '')
   \<Longrightarrow> sub_labels (c # cs) = c # sub_labels cs"
  by auto

declare sub_labels.simps(2) [simp del]

lemma sub_spaces_no_space: "c \<in> set (sub_spaces s) \<Longrightarrow> \<not> is_space c"
  by (simp add: sub_spaces_def)

lemma is_space_blank: "is_space (CHR '' '')"
  by (simp add: is_space_def)

lemma sub_labels_no_blank: "CHR '' '' \<notin> set s \<Longrightarrow> sub_labels s = s"
proof (induction s rule: sub_labels.induct)
  case 1
  then show ?case by simp
next
  case (2 c cs)
  have no: "CHR '' '' \<notin> set (dropWhile is_label_char cs)"
    using 2(3) set_dropWhileD by fastforce
  have "\<not> (dropWhile is_label_char cs \<noteq> [] \<and> hd (dropWhile is_label_char cs) = CHR '' '')"
    using no hd_in_set by metis
  then have "sub_labels (c # cs) = c # sub_labels cs"
    by (intro sub_labels_miss) blast
  moreover have "sub_labels cs = cs"
    using 2(2) 2(3) \<open>\<not> (dropWhile is_label_char cs \<noteq> [] \<and> hd (dropWhile is_label_char cs) = CHR '' '')\<close>
    by auto
  ultimately show ?case by simp
qed

lemma sub_spaces_idem: "sub_spaces (sub_spaces s) = sub_spaces s"
  by (simp add: sub_spaces_def)

lemma remove_idem: "remove_non_terminal_labels (remove_non_terminal_labels s) = remove_non_terminal_labels s"
proof -
  have "CHR '' '' \<notin> set (sub_spaces (sub_labels s))"
    using sub_spaces_no_space is_space_blank by blast
  then show ?thesis
    by (simp add: remove_non_terminal_labels_def sub_labels_no_blank sub_spaces_idem)
qed

lemma paren_not_label: "\<not> is_label_char (CHR ''('')"
  by (simp add: is_label_char_def)

lemma blank_not_label: "\<not> is_label_char (CHR '' '')"
  by (simp add: is_label_char_def)

lemma sub_labels_match:
  assumes "lab \<noteq> []" and "\<forall>c \<in> set lab. is_label_char c"
  shows "sub_labels (CHR ''('' # lab @ CHR '' '' # post) = CHR ''('' # sub_labels post"
proof -
  have t: "takeWhile is_label_char (lab @ CHR '' '' # post) = lab"
    using assms(2) blank_not_label by (simp add: takeWhile_append2 takeWhile_tail)
  have d: "dropWhile is_label_char (lab @ CHR '' '' # post) = CHR '' '' # post"
    using assms(2) blank_not_label by (simp add: dropWhile_append2)
  show ?thesis using assms(1) by (simp add: sub_labels_hit t d)
qed

lemma sub_labels_append_paren:
  "sub_labels (pre @ CHR ''('' # rest) = sub_labels pre @ sub_labels (CHR ''('' # rest)"
proof (induction pre rule: sub_labels.induct)
  case 1
  then show ?case by simp
next
  case (2 c cs)
  let ?r = "CHR ''('' # rest"
  let ?hit = "\<lambda>xs. c = CHR ''('' \<and> takeWhile is_label_char xs \<noteq> []
         \<and> dropWhile is_label_char xs \<noteq> []
         \<and> hd (dropWhile is_label_char xs) = CHR '' ''"
  show ?case
  proof (cases "\<forall>x \<in> set cs. is_label_char x")
    case True
    then have a: "dropWhile is_label_char cs = []"
      by simp
    have b: "dropWhile is_label_char (cs @ ?r) = ?r"
      using True paren_not_label by (simp add: dropWhile_append2)
    have "\<not> ?hit (cs @ ?r)" using b by simp
    then have "sub_labels (c # cs @ ?r) = c # sub_labels (cs @ ?r)"
      by (rule sub_labels_miss)
    moreover have "\<not> ?hit cs" using a by simp
    then have "sub_labels (c # cs) = c # sub_labels cs"
      by (rule sub_labels_miss)
    moreover have "sub_labels (cs @ ?r) = sub_labels cs @ sub_labels ?r"
      using 2(2) \<open>\<not> ?hit cs\<close> by blast
    ultimately show ?thesis by simp
  next
    case False
    then obtain x where x: "x \<in> set cs" "\<not> is_label_char x" by blast
    have a: "takeWhile is_label_char (cs @ ?r) = takeWhile is_label_char cs"
      "dropWhile is_label_char (cs @ ?r) = dropWhile is_label_char cs @ ?r"
      using x takeWhile_append1 [of x cs is_label_char ?r]
        dropWhile_append1 [of x cs is_label_char ?r] by simp_all
    have ne: "dropWhile is_label_char cs \<noteq> []" using False by simp
    show ?thesis
    proof (cases "?hit cs")
      case True
      then obtain post where p: "dropWhile is_label_char cs = CHR '' '' # post"
        by (cases "dropWhile is_label_char cs") auto
      have "sub_labels (c # cs) = CHR ''('' # sub_labels post"
        using True p sub_labels_hit by blast
      moreover have "sub_labels (c # cs @ ?r) = CHR ''('' # sub_labels (post @ ?r)"
        using True p a sub_labels_hit [of "cs @ ?r" "post @ ?r"] by simp
      moreover have "sub_labels (post @ ?r) = sub_labels post @ sub_labels ?r"
        using 2(1) True p by simp
      ultimately show ?thesis by simp
    next
      case False
      then have "sub_labels (c # cs) = c # sub_labels cs"
        by (rule sub_labels_miss)
      moreover have h: "hd (dropWhile is_label_char (cs @ ?r)) = hd (dropWhile is_label_char cs)"
        by (metis a(2) ne hd_append2)
      have "\<not> ?hit (cs @ ?r)" unfolding a(1) h using False ne by blast
      then have "sub_labels (c # cs @ ?r) = c # sub_labels (cs @ ?r)"
        by (rule sub_labels_miss)
      moreover have "sub_labels (cs @ ?r) = sub_labels cs @ sub_labels ?r"
        using 2(2) False by blast
      ultimately show ?thesis by simp
    qed
  qed
qed

lemma sub_spaces_append: "sub_spaces (a @ b) = sub_spaces a @ sub_spaces b"
  by (simp add: sub_spaces_def)

lemma paren_not_space: "\<not> is_space (CHR ''('')"
  by (simp add: is_space_def)


lemma remove_non_terminal_labels_append:
  assumes "lab \<noteq> []" and "\<forall>c \<in> set lab. is_label_char c"
  shows "remove_non_terminal_labels (pre @ CHR ''('' # lab @ CHR '' '' # post)
         = remove_non_terminal_labels pre @ CHR ''('' # remove_non_terminal_labels post"
  unfolding remove_non_terminal_labels_def
  by (simp add: sub_labels_append_paren sub_labels_match [OF assms] sub_spaces_append)
    (simp add: sub_spaces_def paren_not_space)
lemma structural_not_label: "structural c \<Longrightarrow> \<not> is_label_char c"
  by (auto simp: structural_def is_label_char_def)

lemma structural_not_space: "structural c \<Longrightarrow> \<not> is_space c"
  by (auto simp: structural_def is_space_def)

lemma filter_structural_label_run:
  "filter structural (takeWhile is_label_char cs) = []"
proof -
  have "\<forall>x \<in> set (takeWhile is_label_char cs). \<not> structural x"
    using structural_not_label set_takeWhileD by metis
  then show ?thesis by (simp add: filter_empty_conv)
qed

lemma sub_labels_structural: "filter structural (sub_labels s) = filter structural s"
proof (induction s rule: sub_labels.induct)
  case 1
  then show ?case by simp
next
  case (2 c cs)
  let ?hit = "c = CHR ''('' \<and> takeWhile is_label_char cs \<noteq> []
         \<and> dropWhile is_label_char cs \<noteq> []
         \<and> hd (dropWhile is_label_char cs) = CHR '' ''"
  show ?case
  proof (cases ?hit)
    case True
    then obtain post where p: "dropWhile is_label_char cs = CHR '' '' # post"
      by (cases "dropWhile is_label_char cs") auto
    have c: "cs = takeWhile is_label_char cs @ CHR '' '' # post"
      using p takeWhile_dropWhile_id [of is_label_char cs] by simp
    have "filter structural cs = filter structural (takeWhile is_label_char cs) @ filter structural (CHR '' '' # post)"
      using c filter_append by metis
    then have "filter structural cs = filter structural post"
      by (simp add: filter_structural_label_run structural_def)
    moreover have "sub_labels (c # cs) = CHR ''('' # sub_labels post"
      using True p sub_labels_hit by blast
    moreover have "filter structural (sub_labels post) = filter structural post"
      using 2(1) True p by simp
    ultimately show ?thesis using True by simp
  next
    case False
    then have "sub_labels (c # cs) = c # sub_labels cs"
      by (rule sub_labels_miss)
    moreover have "filter structural (sub_labels cs) = filter structural cs"
      using 2(2) False by blast
    ultimately show ?thesis by simp
  qed
qed

lemma remove_structural:
  "filter structural (remove_non_terminal_labels s) = filter structural s"
proof -
  have "filter structural (sub_spaces t) = filter structural t" for t
    unfolding sub_spaces_def filter_filter
    by (rule filter_cong) (auto dest: structural_not_space)
  then show ?thesis
    by (simp add: remove_non_terminal_labels_def sub_labels_structural)
qed

lemma clean_string_map: "clean_string s = map to_brace (remove_non_terminal_labels s)"
  by (auto simp: clean_string_def replace_char_def to_brace_def)


text \<open>
  C7 fails on the code. The claim is that label stripping removes every label of upper case
  letters and \<open>$\<close> that follows an opening parenthesis, as the docstring of
  \<open>remove_non_terminal_labels\<close> promises (a string without non-terminal labels). The
  pattern asks for a space after the label: the label \<open>S\<close> is removed when a space follows
  it, and is kept when a line feed follows it.
\<close>

theorem label_kept_before_line_feed:
  "remove_non_terminal_labels ''(S (NP a))'' = ''((a))''
   \<and> remove_non_terminal_labels (''(S'' @ [CHR 0x0A] @ ''(NP a))'') = ''(S(a))''"
  by code_simp

text \<open>
  C8: the skeleton that \<open>clean_string\<close> returns holds no parenthesis and no whitespace,
  and its braces are the parentheses and braces of the input, in their order, each \<open>(\<close>
  turned into \<open>{\<close> and each \<open>)\<close> into \<open>}\<close>.
\<close>

theorem clean_string_skeleton:
  "(\<forall>c \<in> set (clean_string s). c \<noteq> CHR ''('' \<and> c \<noteq> CHR '')'' \<and> \<not> is_space c)
   \<and> filter structural (clean_string s) = map to_brace (filter structural s)"
proof -
  have sp: "\<not> is_space c" if "c \<in> set (remove_non_terminal_labels s)" for c
    using that sub_spaces_no_space by (simp add: remove_non_terminal_labels_def)
  have b1: "\<not> is_space (CHR ''{'')" and b2: "\<not> is_space (CHR ''}'')"
    by (simp_all add: is_space_def)
  have br: "to_brace c \<noteq> CHR ''('' \<and> to_brace c \<noteq> CHR '')'' \<and> (is_space (to_brace c) \<longrightarrow> is_space c)" for c
    using b1 b2 by (simp add: to_brace_def)
  have 1: "\<forall>c \<in> set (clean_string s). c \<noteq> CHR ''('' \<and> c \<noteq> CHR '')'' \<and> \<not> is_space c"
  proof
    fix c assume "c \<in> set (clean_string s)"
    then obtain d where d: "d \<in> set (remove_non_terminal_labels s)" "c = to_brace d"
      unfolding clean_string_map by auto
    show "c \<noteq> CHR ''('' \<and> c \<noteq> CHR '')'' \<and> \<not> is_space c"
      using sp [OF d(1)] br [of d] unfolding d(2) by simp
  qed
  have st: "structural (to_brace c) = structural c" for c
    by (auto simp: to_brace_def structural_def)
  have "filter structural (map to_brace t) = map to_brace (filter structural t)" for t
    by (induction t) (simp_all add: st)
  then have 2: "filter structural (clean_string s) = map to_brace (filter structural s)"
    by (simp add: clean_string_map remove_structural)
  show ?thesis using 1 2 by blast
qed


theorem clean_string_skeleton_witness:
  "list_all (\<lambda>c. c \<noteq> CHR ''('' \<and> c \<noteq> CHR '')'' \<and> \<not> is_space c) (clean_string ''(S (NP a))'')
   \<and> filter structural (clean_string ''(S (NP a))'') = ''{{}}''"
proof -
  have "map to_brace (filter structural ''(S (NP a))'') = ''{{}}''" by code_simp
  then show ?thesis
    using clean_string_skeleton [of "''(S (NP a))''"] by (simp add: list_all_iff)
qed


section \<open>Properties of the depth-limited rendering\<close>

lemma max_list_ge: "x \<in> set xs \<Longrightarrow> x \<le> max_list xs"
  unfolding max_list_def by (induction xs) auto

lemma height_child: "c \<in> set cs \<Longrightarrow> height c < height (Node l cs)"
  using max_list_ge [of "height c" "map height cs"] by simp

lemma height_pos: "0 < height t"
  by (cases t) simp_all

lemma unbounded_within:
  "cd \<le> d \<Longrightarrow> int (height t) + cd \<le> d + 2
   \<Longrightarrow> nltk_tree_to_n_bracket_string t (PInt d) cd = nltk_tree_to_n_bracket_string t PNone cd"
proof (induction t arbitrary: cd)
  case (Leaf s)
  then show ?case by simp
next
  case (Node l cs)
  have ex: "depth_exceeded (PInt d) cd = Inr False" using Node.prems(1) by simp
  show ?case
  proof (cases "height (Node l cs) > 2")
    case True
    have "nltk_tree_to_n_bracket_string c (PInt d) (cd + 1)
          = nltk_tree_to_n_bracket_string c PNone (cd + 1)" if "c \<in> set cs" for c
    proof (rule Node.IH [OF that])
      show "cd + 1 \<le> d" using True Node.prems(2) by simp
      show "int (height c) + (cd + 1) \<le> d + 2"
        using height_child [OF that, of l] Node.prems(2) by simp
    qed
    then have m: "map (\<lambda>c. nltk_tree_to_n_bracket_string c (PInt d) (cd + 1)) cs
             = map (\<lambda>c. nltk_tree_to_n_bracket_string c PNone (cd + 1)) cs"
      by simp
    show ?thesis using Node.prems(1) by (simp add: m)
  next
    case False
    then show ?thesis using ex by simp
  qed
qed

lemma past_depth_empty:
  "md < cd \<Longrightarrow> nltk_tree_to_n_bracket_string t (PInt md) cd = Inr []"
  by (cases t) simp_all

lemma concat_results_empty: "concat_results (map (\<lambda>c. Inr []) cs) = Inr []"
  by (induction cs) simp_all

lemma depth_zero_root:
  assumes "height (Node l cs) > 2"
  shows "nltk_tree_to_n_bracket_string (Node l cs) (PInt 0) 0 = Inr (''('' @ l @ '' )'')"
proof -
  have ne: "cs \<noteq> []" using assms by (auto simp: max_list_def)
  have m: "map (\<lambda>c. nltk_tree_to_n_bracket_string c (PInt 0) 1) cs = map (\<lambda>c. Inr []) cs"
    by (simp add: past_depth_empty)
  show ?thesis using assms ne by (simp add: m concat_results_empty)
qed


lemma low_node_joined:
  assumes "cd \<le> md" and "cs \<noteq> []" and "height (Node l cs) \<le> 2"
  shows "nltk_tree_to_n_bracket_string (Node l cs) (PInt md) cd
         = Inr (''('' @ l @ '' '' @ join (leaves (Node l cs)) @ '')'')"
  using assms by simp

text \<open>
  C6: for every tree and all depth limits \<open>d\<close>, \<open>d'\<close> that are at least the height of the
  tree, the depth-limited rendering is the same (the same string, or the same exception).
\<close>

theorem depth_beyond_height:
  assumes "int (height t) \<le> d" and "int (height t) \<le> d'"
  shows "nltk_tree_to_n_bracket_string t (PInt d) 0 = nltk_tree_to_n_bracket_string t (PInt d') 0"
proof -
  have "0 < int (height t)" using height_pos [of t] by simp
  then have "nltk_tree_to_n_bracket_string t (PInt d) 0 = nltk_tree_to_n_bracket_string t PNone 0"
    and "nltk_tree_to_n_bracket_string t (PInt d') 0 = nltk_tree_to_n_bracket_string t PNone 0"
    using assms by (simp_all add: unbounded_within)
  then show ?thesis by simp
qed


theorem depth_beyond_height_witness:
  "int (height tree_ab) \<le> 4 \<and> int (height tree_ab) \<le> 7
   \<and> nltk_tree_to_n_bracket_string tree_ab (PInt 4) 0
      = nltk_tree_to_n_bracket_string tree_ab (PInt 7) 0"
proof -
  have h: "height tree_ab = 4" by code_simp
  show ?thesis using h depth_beyond_height [of tree_ab 4 7] by simp
qed

section \<open>Properties of the engine\<close>

lemma forest_nodes_simps [simp]:
  "forest_nodes [] = 0"
  "forest_nodes (t # F) = nodes t + forest_nodes F"
  "forest_nodes (F @ G) = forest_nodes F + forest_nodes G"
  by (simp_all add: forest_nodes_def)

lemma nodes_forest [simp]: "nodes (ANode a cs) = 1 + forest_nodes cs"
  by (simp add: forest_nodes_def)

declare nodes.simps [simp del]

lemmas forest_distance_both = forest_distance.simps(4)

declare forest_distance.simps(4) [simp del]

lemma forest_distance_refl: "forest_distance F F = 0"
proof (induction "forest_nodes F" arbitrary: F rule: less_induct)
  case less
  show ?case
  proof (cases F)
    case Nil
    then show ?thesis by simp
  next
    case (Cons t F0)
    obtain a cs where t: "t = ANode a cs" by (cases t)
    have "forest_distance cs cs = 0" and "forest_distance F0 F0 = 0"
      using less Cons t by simp_all
    then show ?thesis using Cons t by (simp add: forest_distance_both rename_cost_def)
  qed
qed

lemma forest_distance_sym: "forest_distance F G = forest_distance G F"
  by (induction F G rule: forest_distance.induct)
    (simp_all add: forest_distance_both rename_cost_def min.commute eq_commute)

lemma delete_bound: "forest_distance (ANode a cs # F) G \<le> forest_distance (cs @ F) G + 1"
proof (cases G)
  case Nil
  then show ?thesis by simp
next
  case (Cons v G0)
  then show ?thesis by (cases v) (simp add: forest_distance_both)
qed

lemma insert_bound: "forest_distance F (ANode b ds # G) \<le> forest_distance F (ds @ G) + 1"
  using delete_bound [of b ds G F] by (simp add: forest_distance_sym)

lemma match_bound:
  "forest_distance (ANode a cs # F) (ANode b ds # G)
   \<le> forest_distance cs ds + forest_distance F G + rename_cost a b"
  by (simp add: forest_distance_both)

lemma concat_bound:
  "forest_distance (A @ B) (C @ D) \<le> forest_distance A C + forest_distance B D"
proof (induction A C rule: forest_distance.induct)
  case 1
  then show ?case by simp
next
  case (2 a cs F)
  have "forest_distance (ANode a cs # F @ B) D \<le> forest_distance (cs @ F @ B) D + 1"
    by (rule delete_bound)
  then show ?case using 2 by simp
next
  case (3 b ds G)
  have "forest_distance B (ANode b ds # G @ D) \<le> forest_distance B (ds @ G @ D) + 1"
    by (rule insert_bound)
  then show ?case using 3 by simp
next
  case (4 a cs F b ds G)
  let ?u = "ANode a cs" and ?v = "ANode b ds"
  have 1: "forest_distance (?u # F @ B) (?v # G @ D)
          \<le> forest_distance (cs @ F) (?v # G) + 1 + forest_distance B D"
    using delete_bound [of a cs "F @ B" "?v # G @ D"] 4(1) by simp
  have 2: "forest_distance (?u # F @ B) (?v # G @ D)
          \<le> forest_distance (?u # F) (ds @ G) + 1 + forest_distance B D"
    using insert_bound [of "?u # F @ B" b ds "G @ D"] 4(2) by simp
  have 3: "forest_distance (?u # F @ B) (?v # G @ D)
          \<le> forest_distance cs ds + forest_distance F G + rename_cost a b + forest_distance B D"
    using match_bound [of a cs "F @ B" b ds "G @ D"] 4(4) by simp
  show ?case using 1 2 3 by (simp add: forest_distance_both [of a cs F b ds G] min_def)
qed

lemma edit_op_append_right: "edit_op A c B \<Longrightarrow> edit_op (A @ R) c (B @ R)"
proof (induction rule: edit_op.induct)
  case (insert cs F a)
  show ?case using edit_op.insert [of cs "F @ R" a] by simp
next
  case (delete a cs F)
  show ?case using edit_op.delete [of a cs "F @ R"] by simp
next
  case (rename a cs F b)
  show ?case using edit_op.rename [of a cs "F @ R" b] by simp
next
  case (below cs c cs' a F)
  then show ?case using edit_op.below [of cs c cs' a "F @ R"] by simp
next
  case (right F c F' t)
  then show ?case using edit_op.right by simp
qed

lemma edit_op_append_left: "edit_op A c B \<Longrightarrow> edit_op (L @ A) c (L @ B)"
  by (induction L) (simp_all add: edit_op.right)

lemma rename_cost_triangle: "rename_cost a c \<le> rename_cost a b + rename_cost b c"
  by (simp add: rename_cost_def)

lemma forest_distance_step:
  "edit_op G c H \<Longrightarrow> forest_distance F H \<le> forest_distance F G + c"
proof (induction "forest_nodes F + forest_nodes G" arbitrary: F G H c rule: less_induct)
  case less
  note IH = less.hyps
  from less.prems show ?case
  proof (cases rule: edit_op.cases)
    case (insert cs G0 x)
    then show ?thesis using insert_bound [of F x cs G0] by simp
  next
    case (delete x ds G0)
    show ?thesis
    proof (cases F)
      case Nil
      then show ?thesis using delete by simp
    next
      case (Cons u F0)
      obtain a as where u: "u = ANode a as" by (cases u)
      have "forest_distance (as @ F0) H \<le> forest_distance (as @ F0) G + c"
        using IH [of "as @ F0" G c H] less.prems Cons u by simp
      then have 1: "forest_distance F H \<le> forest_distance (as @ F0) G + 1 + c"
        using delete_bound [of a as F0 H] Cons u by simp
      have 3: "forest_distance F H \<le> forest_distance as ds + forest_distance F0 G0 + 1"
        using delete_bound [of a as F0 H] concat_bound [of as F0 ds G0] Cons u delete by simp
      show ?thesis using 1 3 Cons u delete by (simp add: forest_distance_both [of a as F0 x ds G0] min_def)
    qed
  next
    case (rename x ds G0 y)
    show ?thesis
    proof (cases F)
      case Nil
      then show ?thesis using rename by simp
    next
      case (Cons u F0)
      obtain a as where u: "u = ANode a as" by (cases u)
      have "forest_distance (as @ F0) H \<le> forest_distance (as @ F0) G + c"
        using IH [of "as @ F0" G c H] less.prems Cons u by simp
      then have 1: "forest_distance F H \<le> forest_distance (as @ F0) G + 1 + c"
        using delete_bound [of a as F0 H] Cons u by simp
      have 2: "forest_distance F H \<le> forest_distance F (ds @ G0) + 1"
        using insert_bound [of F y ds G0] rename by simp
      have 3: "forest_distance F H
               \<le> forest_distance as ds + forest_distance F0 G0 + rename_cost a x + c"
        using match_bound [of a as F0 y ds G0] rename_cost_triangle [of a y x] Cons u rename
        by simp
      show ?thesis using 1 2 3 Cons u rename by (simp add: forest_distance_both [of a as F0 x ds G0] min_def)
    qed
  next
    case (below ds ds' x G0)
    have shifted: "edit_op (ds @ G0) c (ds' @ G0)"
      using below edit_op_append_right by simp
    show ?thesis
    proof (cases F)
      case Nil
      have "forest_distance [] (ds' @ G0) \<le> forest_distance [] (ds @ G0) + c"
        using IH [of "[]" "ds @ G0" c "ds' @ G0"] shifted below by simp
      then show ?thesis using Nil below by simp
    next
      case (Cons u F0)
      obtain a as where u: "u = ANode a as" by (cases u)
      have "forest_distance (as @ F0) H \<le> forest_distance (as @ F0) G + c"
        using IH [of "as @ F0" G c H] less.prems Cons u by simp
      then have 1: "forest_distance F H \<le> forest_distance (as @ F0) G + 1 + c"
        using delete_bound [of a as F0 H] Cons u by simp
      have "forest_distance F (ds' @ G0) \<le> forest_distance F (ds @ G0) + c"
        using IH [of F "ds @ G0" c "ds' @ G0"] shifted below by simp
      then have 2: "forest_distance F H \<le> forest_distance F (ds @ G0) + 1 + c"
        using insert_bound [of F x ds' G0] below by simp
      have "forest_distance as ds' \<le> forest_distance as ds + c"
        using IH [of as ds c ds'] below Cons u by simp
      then have 3: "forest_distance F H
               \<le> forest_distance as ds + forest_distance F0 G0 + rename_cost a x + c"
        using match_bound [of a as F0 x ds' G0] Cons u below by simp
      show ?thesis using 1 2 3 Cons u below by (simp add: forest_distance_both [of a as F0 x ds G0] min_def)
    qed
  next
    case (right G0 H0 t)
    obtain x ds where t: "t = ANode x ds" by (cases t)
    have shifted: "edit_op (ds @ G0) c (ds @ H0)"
      using right edit_op_append_left by simp
    show ?thesis
    proof (cases F)
      case Nil
      have "forest_distance [] (ds @ H0) \<le> forest_distance [] (ds @ G0) + c"
        using IH [of "[]" "ds @ G0" c "ds @ H0"] shifted right t by simp
      then show ?thesis using Nil right t by simp
    next
      case (Cons u F0)
      obtain a as where u: "u = ANode a as" by (cases u)
      have "forest_distance (as @ F0) H \<le> forest_distance (as @ F0) G + c"
        using IH [of "as @ F0" G c H] less.prems Cons u by simp
      then have 1: "forest_distance F H \<le> forest_distance (as @ F0) G + 1 + c"
        using delete_bound [of a as F0 H] Cons u by simp
      have "forest_distance F (ds @ H0) \<le> forest_distance F (ds @ G0) + c"
        using IH [of F "ds @ G0" c "ds @ H0"] shifted right t by simp
      then have 2: "forest_distance F H \<le> forest_distance F (ds @ G0) + 1 + c"
        using insert_bound [of F x ds H0] right t by simp
      have "forest_distance F0 H0 \<le> forest_distance F0 G0 + c"
        using IH [of F0 G0 c H0] right t Cons u by simp
      then have 3: "forest_distance F H
               \<le> forest_distance as ds + forest_distance F0 G0 + rename_cost a x + c"
        using match_bound [of a as F0 x ds H0] Cons u right t by simp
      show ?thesis using 1 2 3 Cons u right t by (simp add: forest_distance_both [of a as F0 x ds G0] min_def)
    qed
  qed
qed

lemma forest_distance_script:
  "edit_script G n H \<Longrightarrow> forest_distance F H \<le> forest_distance F G + n"
proof (induction arbitrary: F rule: edit_script.induct)
  case (stop G)
  then show ?case by simp
next
  case (step G c G' n H)
  have "forest_distance F G' \<le> forest_distance F G + c"
    using step.hyps(1) by (rule forest_distance_step)
  then show ?case using step.IH [of F] by simp
qed

lemma script_lower_bound: "edit_script F n G \<Longrightarrow> forest_distance F G \<le> n"
  using forest_distance_script [of F n G F] by (simp add: forest_distance_refl)

lemma edit_script_trans:
  "edit_script F m G \<Longrightarrow> edit_script G n H \<Longrightarrow> edit_script F (m + n) H"
proof (induction rule: edit_script.induct)
  case (stop F)
  then show ?case by simp
next
  case (step F c G' k G)
  then show ?case using edit_script.step [of F c G' "k + n" H] by (simp add: add.assoc)
qed

lemma edit_script_op: "edit_op F c G \<Longrightarrow> edit_script F c G"
  using edit_script.step [of F c G 0 G] edit_script.stop by simp

lemma edit_script_below:
  "edit_script cs n ds \<Longrightarrow> edit_script (ANode a cs # F) n (ANode a ds # F)"
proof (induction rule: edit_script.induct)
  case (stop cs)
  then show ?case by (rule edit_script.stop)
next
  case (step cs c cs' n ds)
  then show ?case using edit_script.step edit_op.below by blast
qed

lemma edit_script_right:
  "edit_script F n G \<Longrightarrow> edit_script (t # F) n (t # G)"
proof (induction rule: edit_script.induct)
  case (stop F)
  then show ?case by (rule edit_script.stop)
next
  case (step F c F' n G)
  then show ?case using edit_script.step edit_op.right by blast
qed

lemma script_exists: "edit_script F (forest_distance F G) G"
proof (induction F G rule: forest_distance.induct)
  case 1
  then show ?case by (simp add: edit_script.stop)
next
  case (2 a cs F)
  have "edit_script (ANode a cs # F) (1 + forest_distance (cs @ F) []) []"
    using edit_script.step [OF edit_op.delete 2] .
  then show ?case by simp
next
  case (3 b ds G)
  have "edit_script [] (forest_distance [] (ds @ G) + 1) (ANode b ds # G)"
    using edit_script_trans [OF 3 edit_script_op [OF edit_op.insert]] .
  then show ?case by simp
next
  case (4 a cs F b ds G)
  let ?u = "ANode a cs" and ?v = "ANode b ds"
  have 1: "edit_script (?u # F) (forest_distance (cs @ F) (?v # G) + 1) (?v # G)"
    using edit_script.step [OF edit_op.delete 4(1)] by simp
  have 2: "edit_script (?u # F) (forest_distance (?u # F) (ds @ G) + 1) (?v # G)"
    using edit_script_trans [OF 4(2) edit_script_op [OF edit_op.insert]] .
  have "edit_script (?u # F) (forest_distance cs ds) (ANode a ds # F)"
    using 4(3) by (rule edit_script_below)
  moreover have "edit_script (ANode a ds # F) (forest_distance F G) (ANode a ds # G)"
    using 4(4) by (rule edit_script_right)
  moreover have "edit_script (ANode a ds # G) (rename_cost a b) (?v # G)"
    using edit_op.rename by (rule edit_script_op)
  ultimately have 3: "edit_script (?u # F)
      (forest_distance cs ds + forest_distance F G + rename_cost a b) (?v # G)"
    using edit_script_trans by blast
  show ?case using 1 2 3 by (simp add: forest_distance_both min_def)
qed


lemma compute_edit_distance_self: "compute_edit_distance t t = 0"
  by (simp add: compute_edit_distance_def forest_distance_refl)

lemma compute_edit_distance_sym: "compute_edit_distance t1 t2 = compute_edit_distance t2 t1"
  unfolding compute_edit_distance_def by (rule forest_distance_sym)

lemma trees_distance_Inr:
  assumes "trees_distance str t1 t2 depth = Inr n"
  shows "\<exists>s1 s2 a1 a2. tree_string str t1 (max_depth_of depth) = Inr s1
          \<and> tree_string str t2 (max_depth_of depth) = Inr s2
          \<and> from_text (clean_string s1) = Inr a1 \<and> from_text (clean_string s2) = Inr a2
          \<and> n = compute_edit_distance a1 a2"
  using assms unfolding trees_distance_def by (auto split: sum.splits)

lemma compute_edit_distance_script:
  "edit_script [a] (compute_edit_distance a b) [b]"
  unfolding compute_edit_distance_def by (rule script_exists)

lemma compute_edit_distance_least:
  "edit_script [a] m [b] \<Longrightarrow> compute_edit_distance a b \<le> m"
  unfolding compute_edit_distance_def by (rule script_lower_bound)

text \<open>
  C3: the value the engine returns for two trees is the cost of an edit script that turns
  the first into the second, and no edit script that does so costs less: it is the minimum
  cost under insert = 1, delete = 1, rename = 0 for equal labels and 1 otherwise. The
  distance \<open>calculate_ted\<close> computes for two parse trees is this minimum for the trees read
  from their two skeletons.
\<close>

theorem edit_distance_exact:
  "edit_script [a] (compute_edit_distance a b) [b]
   \<and> (\<forall>m. edit_script [a] m [b] \<longrightarrow> compute_edit_distance a b \<le> m)
   \<and> (trees_distance str t1 t2 depth = Inr n \<longrightarrow>
        (\<exists>s1 s2 a1 a2. tree_string str t1 (max_depth_of depth) = Inr s1
          \<and> tree_string str t2 (max_depth_of depth) = Inr s2
          \<and> from_text (clean_string s1) = Inr a1 \<and> from_text (clean_string s2) = Inr a2
          \<and> edit_script [a1] n [a2]
          \<and> (\<forall>m. edit_script [a1] m [a2] \<longrightarrow> n \<le> m)))"
proof -
  have "\<exists>s1 s2 a1 a2. tree_string str t1 (max_depth_of depth) = Inr s1
          \<and> tree_string str t2 (max_depth_of depth) = Inr s2
          \<and> from_text (clean_string s1) = Inr a1 \<and> from_text (clean_string s2) = Inr a2
          \<and> edit_script [a1] n [a2]
          \<and> (\<forall>m. edit_script [a1] m [a2] \<longrightarrow> n \<le> m)"
    if h: "trees_distance str t1 t2 depth = Inr n"
  proof -
    obtain s1 s2 a1 a2 where
      r: "tree_string str t1 (max_depth_of depth) = Inr s1"
         "tree_string str t2 (max_depth_of depth) = Inr s2"
         "from_text (clean_string s1) = Inr a1" "from_text (clean_string s2) = Inr a2"
      and n: "n = compute_edit_distance a1 a2"
      using trees_distance_Inr [OF h] by blast
    have "edit_script [a1] n [a2]" unfolding n by (rule compute_edit_distance_script)
    moreover have "\<forall>m. edit_script [a1] m [a2] \<longrightarrow> n \<le> m"
      unfolding n using compute_edit_distance_least by blast
    ultimately show ?thesis using r by blast
  qed
  then show ?thesis
    using compute_edit_distance_script compute_edit_distance_least by blast
qed

theorem edit_distance_exact_witness:
  "edit_script [ANode ''a'' []] 1 [ANode ''b'' []]
   \<and> compute_edit_distance (ANode ''a'' []) (ANode ''b'' []) \<le> 1
   \<and> edit_script [ANode ''a'' []] (compute_edit_distance (ANode ''a'' []) (ANode ''b'' []))
        [ANode ''b'' []]
   \<and> trees_distance flat_str tree_ab tree_ac (PStr ''full'') = Inr 1
   \<and> edit_script [ANode [] [ANode [] [ANode ''a'' []], ANode [] [ANode ''b'' []]]] 1
        [ANode [] [ANode [] [ANode ''a'' []], ANode [] [ANode ''c'' []]]]"
proof -
  have "edit_op [ANode ''a'' []] (rename_cost ''a'' ''b'') [ANode ''b'' []]"
    by (rule edit_op.rename)
  then have s: "edit_script [ANode ''a'' []] 1 [ANode ''b'' []]"
    using edit_script_op by (simp add: rename_cost_def)
  have d: "trees_distance flat_str tree_ab tree_ac (PStr ''full'') = Inr 1" by code_simp
  have s1: "tree_string flat_str tree_ab (max_depth_of (PStr ''full'')) = Inr ''{{{a}}{{b}}}''"
    and s2: "tree_string flat_str tree_ac (max_depth_of (PStr ''full'')) = Inr ''{{{a}}{{c}}}''"
    by code_simp+
  have a1: "from_text (clean_string ''{{{a}}{{b}}}'')
            = Inr (ANode [] [ANode [] [ANode ''a'' []], ANode [] [ANode ''b'' []]])"
    and a2: "from_text (clean_string ''{{{a}}{{c}}}'')
            = Inr (ANode [] [ANode [] [ANode ''a'' []], ANode [] [ANode ''c'' []]])"
    by code_simp+
  note t = edit_distance_exact [where a = "ANode ''a'' []" and b = "ANode ''b'' []"
      and str = flat_str and ?t1.0 = tree_ab and ?t2.0 = tree_ac
      and depth = "PStr ''full''" and n = 1]
  have 1: "compute_edit_distance (ANode ''a'' []) (ANode ''b'' []) \<le> 1"
    using t s by blast
  have 2: "edit_script [ANode ''a'' []] (compute_edit_distance (ANode ''a'' []) (ANode ''b'' []))
        [ANode ''b'' []]"
    using t by blast
  have 3: "edit_script [ANode [] [ANode [] [ANode ''a'' []], ANode [] [ANode ''b'' []]]] 1
        [ANode [] [ANode [] [ANode ''a'' []], ANode [] [ANode ''c'' []]]]"
    using t d s1 s2 a1 a2 by auto
  show ?thesis using s 1 2 d 3 by (intro conjI)
qed

section \<open>Well-formed trees are rendered and read without error\<close>

lemma nest_run_append:
  "nest_run (a @ b) st = (case nest_run a st of None \<Rightarrow> None | Some st' \<Rightarrow> nest_run b st')"
  by (induction a arbitrary: st) (auto split: option.splits)

lemma nest_run_plain:
  "plain xs \<Longrightarrow> k > 0 \<Longrightarrow> nest_run xs (k, r) = Some (k, r)"
  by (induction xs) (auto simp: plain_def structural_def)

lemma nest_step_brace: "nest_step (to_brace c) st = nest_step c st"
  by (cases st) (simp add: to_brace_def)

lemma nest_run_brace: "nest_run (map to_brace s) st = nest_run s st"
  by (induction s arbitrary: st) (simp_all add: nest_step_brace split: option.splits)

lemma nest_step_unstructural:
  "\<not> structural c \<Longrightarrow> nest_step c (k, r) = Some st' \<Longrightarrow> st' = (k, r)"
  by (auto simp: structural_def split: if_splits)

lemma nest_run_filter:
  assumes "\<And>c. \<not> P c \<Longrightarrow> \<not> structural c"
  shows "nest_run s st = Some st' \<Longrightarrow> nest_run (filter P s) st = Some st'"
proof (induction s arbitrary: st)
  case Nil
  then show ?case by simp
next
  case (Cons c cs)
  obtain k r where st: "st = (k, r)" by (cases st)
  obtain st1 where s1: "nest_step c st = Some st1" and r1: "nest_run cs st1 = Some st'"
    using Cons.prems by (auto split: option.splits)
  show ?case
  proof (cases "P c")
    case True
    then show ?thesis using s1 Cons.IH [OF r1] by simp
  next
    case False
    then have "st1 = st" using assms s1 st nest_step_unstructural by blast
    then show ?thesis using False Cons.IH r1 by simp
  qed
qed

lemma label_run_plain: "plain (takeWhile is_label_char cs)"
  unfolding plain_def list_all_iff using structural_not_label set_takeWhileD by metis

lemma nest_run_sub_labels:
  "nest_run s st = Some st' \<Longrightarrow> nest_run (sub_labels s) st = Some st'"
proof (induction s arbitrary: st rule: sub_labels.induct)
  case 1
  then show ?case by simp
next
  case (2 c cs)
  let ?hit = "c = CHR ''('' \<and> takeWhile is_label_char cs \<noteq> []
         \<and> dropWhile is_label_char cs \<noteq> []
         \<and> hd (dropWhile is_label_char cs) = CHR '' ''"
  obtain k r where st: "st = (k, r)" by (cases st)
  show ?case
  proof (cases ?hit)
    case True
    then obtain post where p: "dropWhile is_label_char cs = CHR '' '' # post"
      by (cases "dropWhile is_label_char cs") auto
    let ?lab = "takeWhile is_label_char cs"
    have c: "cs = (?lab @ '' '') @ post"
      using p takeWhile_dropWhile_id [of is_label_char cs] by simp
    have pl: "plain (?lab @ '' '')"
      using label_run_plain [of cs] by (simp add: plain_def structural_def)
    have "nest_run cs (k + 1, r) = nest_run post (k + 1, r)"
      using nest_run_append [of "?lab @ '' ''" post "(k + 1, r)"] nest_run_plain [OF pl, of "k + 1" r] c
      by simp
    moreover have "nest_run (c # cs) st = nest_run cs (k + 1, r)"
      using True st by simp
    ultimately have "nest_run post (k + 1, r) = Some st'" using "2.prems" by simp
    then have "nest_run (sub_labels post) (k + 1, r) = Some st'"
      using "2.IH"(1) True p by simp
    moreover have "sub_labels (c # cs) = CHR ''('' # sub_labels post"
      using True p sub_labels_hit by blast
    ultimately show ?thesis using st by simp
  next
    case False
    then have e: "sub_labels (c # cs) = c # sub_labels cs"
      by (rule sub_labels_miss)
    obtain st1 where s1: "nest_step c st = Some st1" and r1: "nest_run cs st1 = Some st'"
      using "2.prems" by (auto split: option.splits)
    have "nest_run (sub_labels cs) st1 = Some st'"
      using "2.IH"(2) False r1 by blast
    then show ?thesis using e s1 by simp
  qed
qed

lemma nest_run_clean_string:
  assumes "nest_run s st = Some st'"
  shows "nest_run (clean_string s) st = Some st'"
proof -
  have "nest_run (sub_spaces (sub_labels s)) st = Some st'"
    unfolding sub_spaces_def
    using nest_run_sub_labels [OF assms] structural_not_space
    by (intro nest_run_filter) auto
  then show ?thesis
    by (simp add: clean_string_map remove_non_terminal_labels_def nest_run_brace)
qed

lemma from_text_run_nest:
  assumes "\<forall>c \<in> set s. c \<noteq> CHR ''('' \<and> c \<noteq> CHR '')''"
    and "nest_run s (length stack, length roots) = Some (k', r')"
  shows "\<exists>stack' roots'. from_text_run s (stack, roots) = Inr (stack', roots')
           \<and> length stack' = k' \<and> length roots' = r'"
  using assms
proof (induction s arbitrary: stack roots)
  case Nil
  then show ?case by simp
next
  case (Cons c cs)
  obtain st1 where s1: "nest_step c (length stack, length roots) = Some st1"
    and r1: "nest_run cs st1 = Some (k', r')"
    using Cons.prems(2) by (auto split: option.splits)
  have np: "c \<noteq> CHR ''('' \<and> c \<noteq> CHR '')''" using Cons.prems(1) by simp
  have "\<exists>stack1 roots1. from_text_step c (stack, roots) = Inr (stack1, roots1)
          \<and> st1 = (length stack1, length roots1)"
    using s1 np by (auto split: if_splits list.splits)
  then obtain stack1 roots1 where
    f: "from_text_step c (stack, roots) = Inr (stack1, roots1)"
    and e: "st1 = (length stack1, length roots1)" by blast
  have "\<exists>stack' roots'. from_text_run cs (stack1, roots1) = Inr (stack', roots')
           \<and> length stack' = k' \<and> length roots' = r'"
    using Cons.IH [of stack1 roots1] Cons.prems(1) r1 e by simp
  then show ?case using f by simp
qed

lemma clean_string_parens:
  "c \<in> set (clean_string s) \<Longrightarrow> c \<noteq> CHR ''('' \<and> c \<noteq> CHR '')''"
  unfolding clean_string_map by (auto simp: to_brace_def split: if_splits)

lemma from_text_accepts:
  assumes "nest_run s (0, 0) = Some (0, 1)"
  shows "\<exists>a. from_text (clean_string s) = Inr a"
proof -
  have n: "nest_run (clean_string s) (length ([] :: (string \<times> atree list) list), length ([] :: atree list)) = Some (0, 1)"
    using nest_run_clean_string [OF assms] by simp
  have p: "\<forall>c \<in> set (clean_string s). c \<noteq> CHR ''('' \<and> c \<noteq> CHR '')''"
    using clean_string_parens by blast
  obtain stack' roots' where
    r: "from_text_run (clean_string s) ([], []) = Inr (stack', roots')"
    "length stack' = 0" "length roots' = 1"
    using from_text_run_nest [OF p n] by blast
  obtain a where "roots' = [a]" using r(3) by (cases roots') auto
  then show ?thesis using r by (simp add: from_text_def)
qed


lemma concat_results_Inr:
  "concat_results rs = Inr body \<Longrightarrow> \<exists>ss. rs = map Inr ss \<and> body = concat ss"
proof (induction rs arbitrary: body rule: concat_results.induct)
  case 1
  then show ?case by simp
next
  case (2 e rs)
  then show ?case by simp
next
  case (3 s rs)
  then obtain t where t: "concat_results rs = Inr t" "body = s @ t"
    by (auto split: sum.splits)
  then obtain ss where "rs = map Inr ss" "t = concat ss" using 3 by blast
  then have "Inr s # rs = map Inr (s # ss) \<and> body = concat (s # ss)" using t by simp
  then show ?case by (rule exI)
qed

lemma concat_results_map_Inr: "concat_results (map Inr ss) = Inr (concat ss)"
  by (induction ss) simp_all

lemma plain_append: "plain (a @ b) = (plain a \<and> plain b)"
  by (simp add: plain_def)

lemma plain_blank: "plain '' ''"
  by (simp add: plain_def structural_def)

lemma plain_join: "list_all plain xs \<Longrightarrow> plain (join xs)"
  by (induction xs rule: join.induct) (auto simp: plain_def structural_def)

lemma nest_run_blocks:
  assumes "\<forall>x \<in> set ss. x = [] \<or> (\<forall>rest r. nest_run (x @ rest) (Suc k, r) = nest_run rest (Suc k, r))"
  shows "nest_run (concat ss @ rest) (Suc k, r) = nest_run rest (Suc k, r)"
  using assms by (induction ss) auto

lemma nest_run_node:
  assumes "plain l" and "nest_run (body @ CHR '')'' # rest) (Suc k, r) = nest_run (CHR '')'' # rest) (Suc k, r)"
  shows "nest_run ((''('' @ l @ '' '' @ body @ '')'') @ rest) (k, r)
         = nest_run rest (if k = 0 then (0, r + 1) else (k, r))"
proof -
  have pl: "plain (l @ '' '')" using assms(1) by (simp add: plain_append plain_blank)
  have "nest_run ((''('' @ l @ '' '' @ body @ '')'') @ rest) (k, r)
        = nest_run ((l @ '' '') @ body @ CHR '')'' # rest) (Suc k, r)"
    by simp
  also have "\<dots> = nest_run (body @ CHR '')'' # rest) (Suc k, r)"
    using nest_run_append [of "l @ '' ''" "body @ CHR '')'' # rest" "(Suc k, r)"]
      nest_run_plain [OF pl, of "Suc k" r] by simp
  also have "\<dots> = nest_run (CHR '')'' # rest) (Suc k, r)" using assms(2) .
  also have "\<dots> = nest_run rest (if k = 0 then (0, r + 1) else (k, r))" by simp
  finally show ?thesis .
qed

lemma is_token_height: "is_token c \<Longrightarrow> height c = 1"
  by (cases c) simp_all

lemma proper_height: "proper t \<Longrightarrow> 2 \<le> height t"
proof (cases t)
  case (Leaf s)
  assume "proper t"
  then show ?thesis using Leaf by simp
next
  case (Node l cs)
  assume "proper t"
  then obtain c where c: "c \<in> set cs" using Node by (cases cs) auto
  have "0 < height c" by (rule height_pos)
  then show ?thesis using height_child [OF c, of l] Node by simp
qed

lemma tokens_height:
  assumes "\<forall>c \<in> set cs. is_token c"
  shows "height (Node l cs) \<le> 2"
proof -
  have "max_list (map height cs) \<le> 1"
    using assms unfolding max_list_def by (induction cs) (simp_all add: is_token_height)
  then show ?thesis by simp
qed

lemma tokens_leaves:
  assumes "\<forall>c \<in> set cs. is_token c"
  shows "list_all plain (leaves (Node l cs))"
proof -
  have "list_all plain (concat (map leaves cs))"
    using assms
  proof (induction cs)
    case Nil
    then show ?case by simp
  next
    case (Cons c cs)
    then show ?case by (cases c) simp_all
  qed
  then show ?thesis by simp
qed

lemma proper_cases:
  assumes "proper (Node l cs)"
  shows "(height (Node l cs) > 2 \<and> (\<forall>c \<in> set cs. proper c))
         \<or> (height (Node l cs) \<le> 2 \<and> list_all plain (leaves (Node l cs)))"
proof (cases "\<forall>c \<in> set cs. is_token c")
  case True
  then show ?thesis using tokens_height tokens_leaves by blast
next
  case False
  then have all: "\<forall>c \<in> set cs. proper c" using assms by auto
  obtain c where c: "c \<in> set cs" using assms by (cases cs) auto
  have "2 \<le> height c" using all c proper_height by blast
  then have "height (Node l cs) > 2" using height_child [OF c, of l] by simp
  then show ?thesis using all by blast
qed

lemma rendering_nested:
  "proper t \<Longrightarrow> nltk_tree_to_n_bracket_string t md cd = Inr s \<Longrightarrow> s \<noteq> []
   \<Longrightarrow> nest_run (s @ rest) (k, r) = nest_run rest (if k = 0 then (0, r + 1) else (k, r))"
proof (induction t arbitrary: cd s k r rest)
  case (Leaf x)
  then show ?case by simp
next
  case (Node l cs)
  have pl: "plain l" and ne: "cs \<noteq> []" using Node.prems(1) by simp_all
  have ex: "depth_exceeded md cd = Inr False"
    using Node.prems(2,3) by (auto split: sum.splits if_splits)
  show ?case
  proof (cases "height (Node l cs) > 2")
    case True
    then obtain body where
      b: "concat_results (map (\<lambda>c. nltk_tree_to_n_bracket_string c md (cd + 1)) cs) = Inr body"
      and s: "s = ''('' @ l @ '' '' @ body @ '')''"
      using Node.prems(2) ex ne by (auto split: sum.splits)
    obtain ss where ss: "map (\<lambda>c. nltk_tree_to_n_bracket_string c md (cd + 1)) cs = map Inr ss"
      and body: "body = concat ss"
      using concat_results_Inr [OF b] by blast
    have "\<forall>x \<in> set ss. x = [] \<or> (\<forall>rest r. nest_run (x @ rest) (Suc k, r) = nest_run rest (Suc k, r))"
    proof
      fix x assume "x \<in> set ss"
      then obtain i where i: "i < length ss" "x = ss ! i" by (auto simp: in_set_conv_nth)
      have len: "length ss = length cs" using ss by (metis length_map)
      have r: "nltk_tree_to_n_bracket_string (cs ! i) md (cd + 1) = Inr x"
        using ss i len by (metis nth_map)
      have c: "cs ! i \<in> set cs" using i len by simp
      have p: "proper (cs ! i)" using proper_cases [OF Node.prems(1)] True c by auto
      show "x = [] \<or> (\<forall>rest r. nest_run (x @ rest) (Suc k, r) = nest_run rest (Suc k, r))"
        using Node.IH [OF c p r, of _ "Suc k"] by auto
    qed
    then have "nest_run (body @ CHR '')'' # rest) (Suc k, r) = nest_run (CHR '')'' # rest) (Suc k, r)"
      unfolding body by (rule nest_run_blocks)
    then show ?thesis unfolding s using pl by (rule nest_run_node [rotated])
  next
    case False
    then have s: "s = ''('' @ l @ '' '' @ join (leaves (Node l cs)) @ '')''"
      using Node.prems(2) ex ne by simp
    have "plain (join (leaves (Node l cs)))"
      using proper_cases [OF Node.prems(1)] False plain_join by auto
    then have "nest_run (join (leaves (Node l cs)) @ CHR '')'' # rest) (Suc k, r)
               = nest_run (CHR '')'' # rest) (Suc k, r)"
      using nest_run_append [of "join (leaves (Node l cs))" "CHR '')'' # rest" "(Suc k, r)"]
        nest_run_plain [of "join (leaves (Node l cs))" "Suc k" r] by simp
    then show ?thesis unfolding s using pl by (rule nest_run_node [rotated])
  qed
qed

lemma concat_results_all_Inr:
  "\<forall>x \<in> set rs. \<exists>s. x = Inr s \<Longrightarrow> \<exists>body. concat_results rs = Inr body"
proof (induction rs)
  case Nil
  then show ?case by simp
next
  case (Cons x rs)
  then obtain s body where "x = Inr s" "concat_results rs = Inr body" by auto
  then show ?case by simp
qed

lemma rendering_succeeds:
  "proper t \<Longrightarrow> \<exists>s. nltk_tree_to_n_bracket_string t (PInt d) cd = Inr s \<and> (cd \<le> d \<longrightarrow> s \<noteq> [])"
proof (induction t arbitrary: cd)
  case (Leaf x)
  then show ?case by simp
next
  case (Node l cs)
  have ne: "cs \<noteq> []" using Node.prems by simp
  show ?case
  proof (cases "height (Node l cs) > 2")
    case True
    have "\<forall>x \<in> set (map (\<lambda>c. nltk_tree_to_n_bracket_string c (PInt d) (cd + 1)) cs). \<exists>s. x = Inr s"
    proof
      fix x assume "x \<in> set (map (\<lambda>c. nltk_tree_to_n_bracket_string c (PInt d) (cd + 1)) cs)"
      then obtain c where c: "c \<in> set cs" "x = nltk_tree_to_n_bracket_string c (PInt d) (cd + 1)"
        by auto
      have "proper c" using proper_cases [OF Node.prems] True c(1) by auto
      then show "\<exists>s. x = Inr s" using Node.IH [OF c(1), of "cd + 1"] c(2) by auto
    qed
    then obtain body where
      "concat_results (map (\<lambda>c. nltk_tree_to_n_bracket_string c (PInt d) (cd + 1)) cs) = Inr body"
      using concat_results_all_Inr by blast
    then show ?thesis using True ne by simp
  next
    case False
    then show ?thesis using ne by simp
  qed
qed

lemma proper_skeleton_read:
  assumes "proper t" and "0 \<le> d"
  shows "\<exists>s a. tree_string str t (max_depth_of (PInt d)) = Inr s \<and> from_text (clean_string s) = Inr a"
proof -
  obtain s where s: "nltk_tree_to_n_bracket_string t (PInt d) 0 = Inr s" "s \<noteq> []"
    using rendering_succeeds [OF assms(1), of d 0] assms(2) by auto
  have "nest_run (s @ []) (0, 0) = nest_run [] (0, 0 + 1)"
    using rendering_nested [OF assms(1) s, of "[]" 0 0] by simp
  then have "nest_run s (0, 0) = Some (0, 1)" by simp
  then obtain a where "from_text (clean_string s) = Inr a"
    using from_text_accepts by blast
  then show ?thesis using s by (simp add: tree_string_def max_depth_of_def)
qed

lemma proper_distance:
  assumes "proper t1" and "proper t2" and "0 \<le> d"
  shows "\<exists>n. trees_distance str t1 t2 (PInt d) = Inr n"
  using proper_skeleton_read [OF assms(1,3), of str] proper_skeleton_read [OF assms(2,3), of str]
  by (auto simp: trees_distance_def)

lemma proper_self_distance:
  assumes "proper t" and "0 \<le> d"
  shows "trees_distance str t t (PInt d) = Inr 0"
  using proper_skeleton_read [OF assms, of str]
  by (auto simp: trees_distance_def compute_edit_distance_self)

lemma nest_run_join:
  assumes "\<forall>x \<in> set xs. \<forall>rest r. nest_run (x @ rest) (Suc k, r) = nest_run rest (Suc k, r)"
  shows "nest_run (join xs @ rest) (Suc k, r) = nest_run rest (Suc k, r)"
  using assms
proof (induction xs rule: join.induct)
  case 1
  then show ?case by simp
next
  case (2 x)
  then show ?case by simp
next
  case (3 x y ys)
  have "nest_run (join (x # y # ys) @ rest) (Suc k, r)
        = nest_run (x @ CHR '' '' # join (y # ys) @ rest) (Suc k, r)" by simp
  also have "\<dots> = nest_run (CHR '' '' # join (y # ys) @ rest) (Suc k, r)"
    using 3(2) by simp
  also have "\<dots> = nest_run (join (y # ys) @ rest) (Suc k, r)" by simp
  also have "\<dots> = nest_run rest (Suc k, r)" using 3 by simp
  finally show ?case .
qed

lemma flat_nested:
  "proper t \<Longrightarrow> nest_run (flat_str t @ rest) (k, r)
                  = nest_run rest (if k = 0 then (0, r + 1) else (k, r))"
proof (induction t arbitrary: k r rest)
  case (Leaf x)
  then show ?case by simp
next
  case (Node l cs)
  have pl: "plain l" using Node.prems by simp
  have "\<forall>x \<in> set (map flat_str cs).
          \<forall>rest r. nest_run (x @ rest) (Suc k, r) = nest_run rest (Suc k, r)"
  proof
    fix x assume "x \<in> set (map flat_str cs)"
    then obtain c where c: "c \<in> set cs" "x = flat_str c" by auto
    show "\<forall>rest r. nest_run (x @ rest) (Suc k, r) = nest_run rest (Suc k, r)"
    proof (cases "is_token c")
      case True
      then obtain w where w: "c = Leaf w" "plain w" by (cases c) auto
      show ?thesis
        using nest_run_append [of w _ "(Suc k, _)"] nest_run_plain [OF w(2), of "Suc k"] c(2) w(1)
        by simp
    next
      case False
      then have "proper c" using Node.prems c(1) by auto
      then show ?thesis using Node.IH [OF c(1), of _ "Suc k"] c(2) by simp
    qed
  qed
  then have "nest_run (join (map flat_str cs) @ CHR '')'' # rest) (Suc k, r)
             = nest_run (CHR '')'' # rest) (Suc k, r)"
    by (rule nest_run_join)
  then have "nest_run ((''('' @ l @ '' '' @ join (map flat_str cs) @ '')'') @ rest) (k, r)
         = nest_run rest (if k = 0 then (0, r + 1) else (k, r))"
    using pl by (rule nest_run_node [rotated])
  then show ?case by simp
qed

lemma proper_skeleton_read_full:
  assumes "proper t"
  shows "\<exists>s a. tree_string flat_str t (max_depth_of (PStr ''full'')) = Inr s
           \<and> from_text (clean_string s) = Inr a"
proof -
  have "nest_run (flat_str t @ []) (0, 0) = nest_run [] (0, 0 + 1)"
    using flat_nested [OF assms, of "[]" 0 0] by simp
  then have "nest_run (flat_str t) (0, 0) = Some (0, 1)" by simp
  then have "nest_run (clean_string (flat_str t)) (0, 0) = Some (0, 1)"
    by (rule nest_run_clean_string)
  then obtain a where "from_text (clean_string (clean_string (flat_str t))) = Inr a"
    using from_text_accepts by blast
  moreover have "nltk_tree_to_bracket_string flat_str t = clean_string (flat_str t)"
    by (simp add: nltk_tree_to_bracket_string_def clean_string_def)
  ultimately show ?thesis by (simp add: tree_string_def max_depth_of_def)
qed

section \<open>Properties of the distance of two sentences\<close>


lemma trees_distance_self:
  "trees_distance str t t depth =
     (case tree_string str t (max_depth_of depth) of
        Inl e \<Rightarrow> Inl e
      | Inr s \<Rightarrow> (case from_text (clean_string s) of Inl e \<Rightarrow> Inl e | Inr a \<Rightarrow> Inr 0))"
  by (simp add: trees_distance_def compute_edit_distance_self split: sum.splits)

lemma trees_distance_sym:
  "trees_distance str t1 t2 depth = Inr n \<longleftrightarrow> trees_distance str t2 t1 depth = Inr n"
  unfolding trees_distance_def
  by (auto simp: compute_edit_distance_sym [of _ _] split: sum.splits)

lemma calculate_ted_Inr:
  assumes "snd (calculate_ted X a b depth) = Inr n"
  shows "\<exists>c1 c2 t1 t2. check_arguments a b depth = None
          \<and> constituency X (str_value a) = Inr c1 \<and> constituency X (str_value b) = Inr c2
          \<and> fromstring X c1 = Inr t1 \<and> fromstring X c2 = Inr t2
          \<and> trees_distance (tree_str X) t1 t2 depth = Inr n"
  using assms unfolding calculate_ted_def by (auto split: option.splits sum.splits)


lemma proper_calculate_ted:
  assumes "proper (p s)" and "0 \<le> d"
  shows "calculate_ted (total_collaborators p) (PStr s) (PStr s) (PInt d) = ([s, s], Inr 0)"
proof -
  have "check_arguments (PStr s) (PStr s) (PInt d) = None"
    using assms(2) by (simp add: check_arguments_def)
  then show ?thesis
    using proper_self_distance [OF assms, of flat_str]
    by (simp add: calculate_ted_def total_collaborators_def)
qed

text \<open>
  C4: the distance of a tree to itself is 0, at any depth: comparing a tree with itself
  fails exactly when its rendering or the reading of its skeleton fails, and returns 0
  otherwise; whenever \<open>calculate_ted\<close> returns a distance for a sentence against itself,
  the distance is 0; and for a well-formed tree the distance to itself is returned, and is
  0, at every depth that is a non-negative integer, and at full depth when \<open>str\<close> writes
  the tree on one line.
\<close>

theorem distance_to_itself:
  "trees_distance str t t depth =
     (case tree_string str t (max_depth_of depth) of
        Inl e \<Rightarrow> Inl e
      | Inr s \<Rightarrow> (case from_text (clean_string s) of Inl e \<Rightarrow> Inl e | Inr a \<Rightarrow> Inr 0))
   \<and> (snd (calculate_ted X sent sent depth) = Inr n \<longrightarrow> n = 0)
   \<and> (proper t \<and> 0 \<le> d \<longrightarrow> trees_distance str t t (PInt d) = Inr 0)
   \<and> (proper t \<longrightarrow> trees_distance flat_str t t (PStr ''full'') = Inr 0)
   \<and> (proper (p w) \<and> 0 \<le> d \<longrightarrow>
        calculate_ted (total_collaborators p) (PStr w) (PStr w) (PInt d) = ([w, w], Inr 0))"
proof -
  have "n = 0" if h: "snd (calculate_ted X sent sent depth) = Inr n"
  proof -
    obtain t where "trees_distance (tree_str X) t t depth = Inr n"
      using calculate_ted_Inr [OF h] by auto
    then show ?thesis unfolding trees_distance_self by (auto split: sum.splits)
  qed
  moreover have "trees_distance flat_str t t (PStr ''full'') = Inr 0" if "proper t"
    using proper_skeleton_read_full [OF that] unfolding trees_distance_self by auto
  ultimately show ?thesis
    using trees_distance_self proper_self_distance proper_calculate_ted by blast
qed

theorem distance_to_itself_witness:
  "proper tree_ab
   \<and> trees_distance flat_str tree_ab tree_ab (PInt 1) = Inr 0
   \<and> trees_distance flat_str tree_ab tree_ab (PStr ''full'') = Inr 0
   \<and> calculate_ted (total_collaborators (\<lambda>s. tree_ab)) (PStr ''x'') (PStr ''x'') (PInt 1)
      = ([''x'', ''x''], Inr 0)"
proof -
  have pr: "proper tree_ab" by code_simp
  have z: "(0::int) \<le> 1" by simp
  note t = distance_to_itself [where t = tree_ab and str = flat_str and d = 1
      and p = "\<lambda>s. tree_ab" and w = "''x''" and depth = "PInt 1"
      and X = "total_collaborators (\<lambda>s. tree_ab)" and sent = "PStr ''x''" and n = 0]
  have 1: "trees_distance flat_str tree_ab tree_ab (PInt 1) = Inr 0" using t pr z by blast
  have 2: "trees_distance flat_str tree_ab tree_ab (PStr ''full'') = Inr 0" using t pr by blast
  have 3: "calculate_ted (total_collaborators (\<lambda>s. tree_ab)) (PStr ''x'') (PStr ''x'') (PInt 1)
      = ([''x'', ''x''], Inr 0)"
    using t pr z by blast
  show ?thesis using pr 1 2 3 by (intro conjI)
qed

text \<open>
  C5: the distance is symmetric: comparing two trees, or two sentences, returns the distance
  \<open>n\<close> in the one order exactly when it returns \<open>n\<close> in the other; and for two
  well-formed trees and a depth that is a non-negative integer a distance is returned, the
  same in both orders.
\<close>

theorem distance_symmetric:
  "(trees_distance str t1 t2 depth = Inr n \<longleftrightarrow> trees_distance str t2 t1 depth = Inr n)
   \<and> (snd (calculate_ted X sent1 sent2 depth) = Inr n
        \<longleftrightarrow> snd (calculate_ted X sent2 sent1 depth) = Inr n)
   \<and> (proper t1 \<and> proper t2 \<and> 0 \<le> d \<longrightarrow>
        (\<exists>k. trees_distance str t1 t2 (PInt d) = Inr k
            \<and> trees_distance str t2 t1 (PInt d) = Inr k))"
proof -
  have "snd (calculate_ted X a b depth) = Inr n \<Longrightarrow> snd (calculate_ted X b a depth) = Inr n" for a b
  proof -
    assume h: "snd (calculate_ted X a b depth) = Inr n"
    obtain c1 c2 t1 t2 where ok: "check_arguments a b depth = None" and
      p: "constituency X (str_value a) = Inr c1" "constituency X (str_value b) = Inr c2"
         "fromstring X c1 = Inr t1" "fromstring X c2 = Inr t2"
         "trees_distance (tree_str X) t1 t2 depth = Inr n"
      using calculate_ted_Inr [OF h] by blast
    have ok': "check_arguments b a depth = None"
      using ok by (auto simp: check_arguments_def split: if_splits)
    have "trees_distance (tree_str X) t2 t1 depth = Inr n"
      using p(5) trees_distance_sym by blast
    then show ?thesis using ok' p unfolding calculate_ted_def by simp
  qed
  moreover have "\<exists>k. trees_distance str t1 t2 (PInt d) = Inr k
            \<and> trees_distance str t2 t1 (PInt d) = Inr k"
    if "proper t1 \<and> proper t2 \<and> 0 \<le> d"
    using that proper_distance [of t1 t2 d str] trees_distance_sym by blast
  ultimately show ?thesis using trees_distance_sym by blast
qed

theorem distance_symmetric_witness:
  "proper tree_ab \<and> proper tree_ac
   \<and> trees_distance flat_str tree_ab tree_ac (PStr ''full'') = Inr 1
   \<and> trees_distance flat_str tree_ac tree_ab (PStr ''full'') = Inr 1
   \<and> trees_distance flat_str tree_ab tree_ac (PInt 2) = Inr 1
   \<and> trees_distance flat_str tree_ac tree_ab (PInt 2) = Inr 1"
proof -
  have pr: "proper tree_ab" "proper tree_ac" by code_simp+
  have a: "trees_distance flat_str tree_ab tree_ac (PStr ''full'') = Inr 1"
    by code_simp
  have b: "trees_distance flat_str tree_ac tree_ab (PStr ''full'') = Inr 1"
    using a distance_symmetric [of flat_str tree_ab tree_ac "PStr ''full''" 1] by blast
  have c: "trees_distance flat_str tree_ab tree_ac (PInt 2) = Inr 1"
    by code_simp
  have z: "(0::int) \<le> 2" by simp
  note t = distance_symmetric [where ?t1.0 = tree_ab and ?t2.0 = tree_ac and d = 2
      and str = flat_str and depth = "PInt 2" and n = 1
      and X = "total_collaborators (\<lambda>s. tree_ab)" and ?sent1.0 = "PStr ''x''"
      and ?sent2.0 = "PStr ''y''"]
  have "\<exists>k. trees_distance flat_str tree_ab tree_ac (PInt 2) = Inr k
            \<and> trees_distance flat_str tree_ac tree_ab (PInt 2) = Inr k"
    using t pr z by blast
  then obtain k where k: "trees_distance flat_str tree_ab tree_ac (PInt 2) = Inr k"
    "trees_distance flat_str tree_ac tree_ab (PInt 2) = Inr k"
    by blast
  have d: "trees_distance flat_str tree_ac tree_ab (PInt 2) = Inr 1"
    using c k by simp
  show ?thesis using pr a b c d by (intro conjI)
qed

lemma depth_zero_distance:
  "trees_distance str tree_ab tree_ac (PInt 0) = Inr 0"
proof -
  have a: "nltk_tree_to_n_bracket_string tree_ab (PInt 0) 0 = Inr ''(S )''" by code_simp
  have b: "nltk_tree_to_n_bracket_string tree_ac (PInt 0) 0 = Inr ''(S )''" by code_simp
  have c: "from_text (clean_string ''(S )'') = Inr (ANode [] [])" by code_simp
  have d: "max_depth_of (PInt 0) = PInt 0" by (simp add: max_depth_of_def)
  show ?thesis
    by (simp add: trees_distance_def tree_string_def d a b c compute_edit_distance_self)
qed


text \<open>
  C1, as the claim states it, fails: at depth 0 the children of the root are reached past
  the limit and are rendered as the empty string, not as their tokens joined. Both trees
  render as \<open>(S )\<close>, their skeletons are equal, and their distance is 0, not 1.
\<close>

theorem depth_zero_counterexample:
  "nltk_tree_to_n_bracket_string tree_ab (PInt 0) 0 = Inr ''(S )''
   \<and> nltk_tree_to_n_bracket_string tree_ac (PInt 0) 0 = Inr ''(S )''
   \<and> trees_distance flat_str tree_ab tree_ac (PInt 0) = Inr 0"
  by code_simp


lemma childless_node_empty:
  "nltk_tree_to_n_bracket_string (Node l []) (PInt md) cd = Inr []"
  by simp

lemma high_node_children:
  assumes "cd \<le> md" and "height (Node l cs) > 2"
  shows "nltk_tree_to_n_bracket_string (Node l cs) (PInt md) cd
         = (case concat_results
                   (map (\<lambda>child. nltk_tree_to_n_bracket_string child (PInt md) (cd + 1)) cs) of
              Inl e \<Rightarrow> Inl e
            | Inr body \<Rightarrow> Inr (''('' @ l @ '' '' @ body @ '')''))"
proof -
  have "cs \<noteq> []" using assms(2) by (auto simp: max_list_def)
  then show ?thesis using assms by simp
qed

text \<open>
  C1, amended: for every tree and every finite \<open>max_depth\<close>, a node the rendering reaches
  past \<open>max_depth\<close> edges from the root is rendered as the empty string (it is left out
  with its subtree), and so is a node without children at any depth. A node within the
  limit that has a child and whose height is at most 2 is rendered as \<open>(\<close>, its label, a
  space, its tokens joined by spaces, and \<open>)\<close>. A node within the limit whose height is
  more than 2 is rendered as \<open>(\<close>, its label, a space, the renderings of its children one
  level deeper, and \<open>)\<close>, or raises what the first failing child raises; at depth 0 such
  a root is rendered as \<open>(\<close>, its label, a space and \<open>)\<close>. In particular, at depth 0 the two
  trees both render as \<open>(S )\<close>, the skeleton of \<open>(S )\<close> is \<open>{}\<close>, and their distance is 0.
\<close>

theorem depth_limited_rendering:
  "(md < cd \<longrightarrow> nltk_tree_to_n_bracket_string t (PInt md) cd = Inr [])
   \<and> nltk_tree_to_n_bracket_string (Node l []) (PInt md) cd = Inr []
   \<and> (cd \<le> md \<and> cs \<noteq> [] \<and> height (Node l cs) \<le> 2 \<longrightarrow>
        nltk_tree_to_n_bracket_string (Node l cs) (PInt md) cd
        = Inr (''('' @ l @ '' '' @ join (leaves (Node l cs)) @ '')''))
   \<and> (cd \<le> md \<and> height (Node l cs) > 2 \<longrightarrow>
        nltk_tree_to_n_bracket_string (Node l cs) (PInt md) cd
        = (case concat_results
                  (map (\<lambda>child. nltk_tree_to_n_bracket_string child (PInt md) (cd + 1)) cs) of
             Inl e \<Rightarrow> Inl e
           | Inr body \<Rightarrow> Inr (''('' @ l @ '' '' @ body @ '')'')))
   \<and> (height (Node l cs) > 2 \<longrightarrow>
        nltk_tree_to_n_bracket_string (Node l cs) (PInt 0) 0 = Inr (''('' @ l @ '' )''))
   \<and> nltk_tree_to_n_bracket_string tree_ab (PInt 0) 0 = Inr ''(S )''
   \<and> nltk_tree_to_n_bracket_string tree_ac (PInt 0) 0 = Inr ''(S )''
   \<and> clean_string ''(S )'' = ''{}''
   \<and> trees_distance str tree_ab tree_ac (PInt 0) = Inr 0"
proof -
  have a: "nltk_tree_to_n_bracket_string tree_ab (PInt 0) 0 = Inr ''(S )''" by code_simp
  have b: "nltk_tree_to_n_bracket_string tree_ac (PInt 0) 0 = Inr ''(S )''" by code_simp
  have c: "clean_string ''(S )'' = ''{}''" by code_simp
  have 1: "md < cd \<longrightarrow> nltk_tree_to_n_bracket_string t (PInt md) cd = Inr []"
    using past_depth_empty by blast
  have 2: "nltk_tree_to_n_bracket_string (Node l []) (PInt md) cd = Inr []"
    by (rule childless_node_empty)
  have 3: "cd \<le> md \<and> cs \<noteq> [] \<and> height (Node l cs) \<le> 2 \<longrightarrow>
        nltk_tree_to_n_bracket_string (Node l cs) (PInt md) cd
        = Inr (''('' @ l @ '' '' @ join (leaves (Node l cs)) @ '')'')"
    using low_node_joined by blast
  have 4: "cd \<le> md \<and> height (Node l cs) > 2 \<longrightarrow>
        nltk_tree_to_n_bracket_string (Node l cs) (PInt md) cd
        = (case concat_results
                  (map (\<lambda>child. nltk_tree_to_n_bracket_string child (PInt md) (cd + 1)) cs) of
             Inl e \<Rightarrow> Inl e
           | Inr body \<Rightarrow> Inr (''('' @ l @ '' '' @ body @ '')''))"
    using high_node_children by blast
  have 5: "height (Node l cs) > 2 \<longrightarrow>
        nltk_tree_to_n_bracket_string (Node l cs) (PInt 0) 0 = Inr (''('' @ l @ '' )'')"
    using depth_zero_root by blast
  show ?thesis using 1 2 3 4 5 a b c depth_zero_distance by (intro conjI)
qed

theorem depth_limited_rendering_witness:
  "(0::int) < 1
   \<and> nltk_tree_to_n_bracket_string (Node ''NP'' [Node ''DT'' [Leaf ''a'']]) (PInt 0) 1 = Inr []
   \<and> nltk_tree_to_n_bracket_string (Node ''NP'' []) (PInt 0) 0 = Inr []
   \<and> height (Node ''NP'' [Leaf ''the'', Leaf ''cat'']) \<le> 2
   \<and> nltk_tree_to_n_bracket_string (Node ''NP'' [Leaf ''the'', Leaf ''cat'']) (PInt 0) 0
      = Inr ''(NP the cat)''
   \<and> height tree_ab > 2
   \<and> nltk_tree_to_n_bracket_string tree_ab (PInt 1) 0 = Inr ''(S (NP )(VP ))''
   \<and> nltk_tree_to_n_bracket_string tree_ab (PInt 0) 0 = Inr ''(S )''
   \<and> trees_distance flat_str tree_ab tree_ac (PInt 0) = Inr 0"
proof -
  note t = depth_limited_rendering [where md = 0 and cd = 1
      and t = "Node ''NP'' [Node ''DT'' [Leaf ''a'']]" and str = flat_str]
  note u = depth_limited_rendering [where md = 0 and cd = 0 and l = "''NP''"
      and cs = "[Leaf ''the'', Leaf ''cat'']" and str = flat_str]
  note v = depth_limited_rendering [where md = 1 and cd = 0 and l = "''S''"
      and cs = "[Node ''NP'' [Node ''DT'' [Leaf ''a'']], Node ''VP'' [Node ''V'' [Leaf ''b'']]]"
      and str = flat_str]
  note w = depth_limited_rendering [where md = 0 and cd = 0 and l = "''NP''"
      and str = flat_str]
  have h: "height (Node ''NP'' [Leaf ''the'', Leaf ''cat'']) \<le> 2" by code_simp
  have g: "height tree_ab > 2" by code_simp
  have j: "''('' @ ''NP'' @ '' '' @ join (leaves (Node ''NP'' [Leaf ''the'', Leaf ''cat''])) @ '')''
           = ''(NP the cat)''" by code_simp
  have k: "(case concat_results
                  (map (\<lambda>child. nltk_tree_to_n_bracket_string child (PInt 1) (0 + 1))
                     [Node ''NP'' [Node ''DT'' [Leaf ''a'']], Node ''VP'' [Node ''V'' [Leaf ''b'']]]) of
             Inl e \<Rightarrow> Inl e
           | Inr body \<Rightarrow> Inr (''('' @ ''S'' @ '' '' @ body @ '')''))
           = Inr ''(S (NP )(VP ))''" by code_simp
  have 1: "nltk_tree_to_n_bracket_string (Node ''NP'' [Node ''DT'' [Leaf ''a'']]) (PInt 0) 1 = Inr []"
    using t by simp
  have 2: "nltk_tree_to_n_bracket_string (Node ''NP'' []) (PInt 0) 0 = Inr []"
    using w by blast
  have 3: "nltk_tree_to_n_bracket_string (Node ''NP'' [Leaf ''the'', Leaf ''cat'']) (PInt 0) 0
      = Inr ''(NP the cat)''"
    using u h j by simp
  have 4: "nltk_tree_to_n_bracket_string tree_ab (PInt 1) 0 = Inr ''(S (NP )(VP ))''"
    using v g k unfolding tree_ab_def by simp
  have 5: "nltk_tree_to_n_bracket_string tree_ab (PInt 0) 0 = Inr ''(S )''"
    using t by blast
  have 6: "trees_distance flat_str tree_ab tree_ac (PInt 0) = Inr 0"
    using t by blast
  show ?thesis using h g 1 2 3 4 5 6 by (intro conjI) simp_all
qed

lemma calculate_ted_after_validation:
  assumes "check_arguments sent1 sent2 depth = None"
    and "constituency X (str_value sent1) = Inr c1"
    and "constituency X (str_value sent2) = Inr c2"
    and "fromstring X c1 = Inr t1" and "fromstring X c2 = Inr t2"
  shows "calculate_ted X sent1 sent2 depth
         = ([str_value sent1, str_value sent2], trees_distance (tree_str X) t1 t2 depth)"
  using assms by (simp add: calculate_ted_def)

lemma trees_distance_depth_limited:
  assumes "depth \<noteq> PStr ''full''" and "depth \<noteq> PNone"
  shows "trees_distance str t1 t2 depth
         = (case nltk_tree_to_n_bracket_string t1 depth 0 of
              Inl e \<Rightarrow> Inl e
            | Inr s1 \<Rightarrow>
           (case nltk_tree_to_n_bracket_string t2 depth 0 of
              Inl e \<Rightarrow> Inl e
            | Inr s2 \<Rightarrow>
           (case from_text (clean_string s1) of
              Inl e \<Rightarrow> Inl e
            | Inr a1 \<Rightarrow>
           (case from_text (clean_string s2) of
              Inl e \<Rightarrow> Inl e
            | Inr a2 \<Rightarrow> Inr (compute_edit_distance a1 a2)))))"
proof -
  have ts: "tree_string str t (max_depth_of depth) = nltk_tree_to_n_bracket_string t depth 0"
    for t
    using assms by (simp add: tree_string_def max_depth_of_def)
  show ?thesis unfolding trees_distance_def ts by (rule refl)
qed

lemma check_arguments_not_None_depth:
  "check_arguments sent1 sent2 depth = None \<Longrightarrow> depth \<noteq> PNone"
  by (auto simp: check_arguments_def split: if_splits)

lemma calculate_ted_reaches_pipeline:
  "check_arguments sent1 sent2 depth = None \<Longrightarrow> fst (calculate_ted X sent1 sent2 depth) \<noteq> []"
  by (auto simp: calculate_ted_def split: sum.splits)

lemma string_depth_raises:
  "nltk_tree_to_n_bracket_string t (PStr d) cd = Inl (TypeError Int_and_str_not_ordered)"
  by (cases t) simp_all

text \<open>
  C10: the checks at the head of \<open>calculate_ted\<close> raise exactly when a sentence is no
  string, or the depth is neither a string nor an integer, or it is a negative integer;
  what they raise is a \<open>TypeError\<close>, before any sentence is handed to the pipeline, and
  when they do not raise the pipeline is reached. Every string passes as a depth. When the
  checks pass and the trees are there, \<open>calculate_ted\<close> hands every depth other than
  \<open>full\<close>, a string among them, as \<open>max_depth\<close> to the depth-limited rendering of the
  first tree and then of the second, and its outcome is what follows from these two; with a
  string as \<open>max_depth\<close> the rendering raises the \<open>TypeError\<close> of the comparison.
\<close>

theorem argument_validation:
  "(check_arguments sent1 sent2 depth \<noteq> None \<longleftrightarrow>
      (\<not> is_str sent1 \<or> \<not> is_str sent2 \<or> \<not> (is_str depth \<or> is_int depth)
       \<or> (is_int depth \<and> int_value depth < 0)))
   \<and> (\<forall>e. check_arguments sent1 sent2 depth = Some e \<longrightarrow>
         (\<exists>m. e = TypeError m) \<and> calculate_ted X sent1 sent2 depth = ([], Inl e))
   \<and> check_arguments (PStr a) (PStr b) (PStr d) = None
   \<and> (d \<noteq> ''full'' \<longrightarrow>
         tree_string str t (max_depth_of (PStr d)) = nltk_tree_to_n_bracket_string t (PStr d) 0)
   \<and> (check_arguments sent1 sent2 depth = None \<longrightarrow>
         fst (calculate_ted X sent1 sent2 depth) \<noteq> [])
   \<and> (check_arguments sent1 sent2 depth = None \<and> depth \<noteq> PStr ''full''
        \<and> constituency X (str_value sent1) = Inr c1 \<and> constituency X (str_value sent2) = Inr c2
        \<and> fromstring X c1 = Inr t1 \<and> fromstring X c2 = Inr t2 \<longrightarrow>
         calculate_ted X sent1 sent2 depth
         = ([str_value sent1, str_value sent2],
            (case nltk_tree_to_n_bracket_string t1 depth 0 of
               Inl e \<Rightarrow> Inl e
             | Inr s1 \<Rightarrow>
            (case nltk_tree_to_n_bracket_string t2 depth 0 of
               Inl e \<Rightarrow> Inl e
             | Inr s2 \<Rightarrow>
            (case from_text (clean_string s1) of
               Inl e \<Rightarrow> Inl e
             | Inr a1 \<Rightarrow>
            (case from_text (clean_string s2) of
               Inl e \<Rightarrow> Inl e
             | Inr a2 \<Rightarrow> Inr (compute_edit_distance a1 a2)))))))
   \<and> (d \<noteq> ''full'' \<and> constituency X a = Inr c1 \<and> constituency X b = Inr c2
        \<and> fromstring X c1 = Inr t1 \<and> fromstring X c2 = Inr t2 \<longrightarrow>
         nltk_tree_to_n_bracket_string t1 (PStr d) 0 = Inl (TypeError Int_and_str_not_ordered)
         \<and> calculate_ted X (PStr a) (PStr b) (PStr d)
           = ([a, b], Inl (TypeError Int_and_str_not_ordered)))"
proof -
  have old: "(check_arguments sent1 sent2 depth \<noteq> None \<longleftrightarrow>
      (\<not> is_str sent1 \<or> \<not> is_str sent2 \<or> \<not> (is_str depth \<or> is_int depth)
       \<or> (is_int depth \<and> int_value depth < 0)))
   \<and> (\<forall>e. check_arguments sent1 sent2 depth = Some e \<longrightarrow>
         (\<exists>m. e = TypeError m) \<and> calculate_ted X sent1 sent2 depth = ([], Inl e))
   \<and> check_arguments (PStr a) (PStr b) (PStr d) = None
   \<and> (d \<noteq> ''full'' \<longrightarrow>
         tree_string str t (max_depth_of (PStr d)) = nltk_tree_to_n_bracket_string t (PStr d) 0)"
    by (auto simp: check_arguments_def calculate_ted_def max_depth_of_def tree_string_def)
  have reach: "check_arguments sent1 sent2 depth = None \<longrightarrow>
         fst (calculate_ted X sent1 sent2 depth) \<noteq> []"
    using calculate_ted_reaches_pipeline by blast
  have link: "check_arguments sent1 sent2 depth = None \<and> depth \<noteq> PStr ''full''
        \<and> constituency X (str_value sent1) = Inr c1 \<and> constituency X (str_value sent2) = Inr c2
        \<and> fromstring X c1 = Inr t1 \<and> fromstring X c2 = Inr t2 \<longrightarrow>
         calculate_ted X sent1 sent2 depth
         = ([str_value sent1, str_value sent2],
            (case nltk_tree_to_n_bracket_string t1 depth 0 of
               Inl e \<Rightarrow> Inl e
             | Inr s1 \<Rightarrow>
            (case nltk_tree_to_n_bracket_string t2 depth 0 of
               Inl e \<Rightarrow> Inl e
             | Inr s2 \<Rightarrow>
            (case from_text (clean_string s1) of
               Inl e \<Rightarrow> Inl e
             | Inr a1 \<Rightarrow>
            (case from_text (clean_string s2) of
               Inl e \<Rightarrow> Inl e
             | Inr a2 \<Rightarrow> Inr (compute_edit_distance a1 a2))))))"
  proof
    assume h: "check_arguments sent1 sent2 depth = None \<and> depth \<noteq> PStr ''full''
        \<and> constituency X (str_value sent1) = Inr c1 \<and> constituency X (str_value sent2) = Inr c2
        \<and> fromstring X c1 = Inr t1 \<and> fromstring X c2 = Inr t2"
    then have n: "depth \<noteq> PNone" using check_arguments_not_None_depth by blast
    have h1: "check_arguments sent1 sent2 depth = None"
      and h2: "constituency X (str_value sent1) = Inr c1"
      and h3: "constituency X (str_value sent2) = Inr c2"
      and h4: "fromstring X c1 = Inr t1" and h5: "fromstring X c2 = Inr t2"
      using h by blast+
    have "calculate_ted X sent1 sent2 depth
         = ([str_value sent1, str_value sent2], trees_distance (tree_str X) t1 t2 depth)"
      using h1 h2 h3 h4 h5 by (rule calculate_ted_after_validation)
    then show "calculate_ted X sent1 sent2 depth
         = ([str_value sent1, str_value sent2],
            (case nltk_tree_to_n_bracket_string t1 depth 0 of
               Inl e \<Rightarrow> Inl e
             | Inr s1 \<Rightarrow>
            (case nltk_tree_to_n_bracket_string t2 depth 0 of
               Inl e \<Rightarrow> Inl e
             | Inr s2 \<Rightarrow>
            (case from_text (clean_string s1) of
               Inl e \<Rightarrow> Inl e
             | Inr a1 \<Rightarrow>
            (case from_text (clean_string s2) of
               Inl e \<Rightarrow> Inl e
             | Inr a2 \<Rightarrow> Inr (compute_edit_distance a1 a2))))))"
      using h n trees_distance_depth_limited [of depth "tree_str X" t1 t2] by simp
  qed
  have strd: "d \<noteq> ''full'' \<and> constituency X a = Inr c1 \<and> constituency X b = Inr c2
        \<and> fromstring X c1 = Inr t1 \<and> fromstring X c2 = Inr t2 \<longrightarrow>
         nltk_tree_to_n_bracket_string t1 (PStr d) 0 = Inl (TypeError Int_and_str_not_ordered)
         \<and> calculate_ted X (PStr a) (PStr b) (PStr d)
           = ([a, b], Inl (TypeError Int_and_str_not_ordered))"
  proof
    assume h: "d \<noteq> ''full'' \<and> constituency X a = Inr c1 \<and> constituency X b = Inr c2
        \<and> fromstring X c1 = Inr t1 \<and> fromstring X c2 = Inr t2"
    have c: "check_arguments (PStr a) (PStr b) (PStr d) = None"
      by (simp add: check_arguments_def)
    have "calculate_ted X (PStr a) (PStr b) (PStr d)
         = ([a, b], trees_distance (tree_str X) t1 t2 (PStr d))"
      using calculate_ted_after_validation [OF c, of X c1 c2 t1 t2] h by simp
    moreover have "trees_distance (tree_str X) t1 t2 (PStr d)
                   = Inl (TypeError Int_and_str_not_ordered)"
      using h trees_distance_depth_limited [of "PStr d" "tree_str X" t1 t2]
      by (simp add: string_depth_raises)
    ultimately show "nltk_tree_to_n_bracket_string t1 (PStr d) 0
           = Inl (TypeError Int_and_str_not_ordered)
         \<and> calculate_ted X (PStr a) (PStr b) (PStr d)
           = ([a, b], Inl (TypeError Int_and_str_not_ordered))"
      by (simp add: string_depth_raises)
  qed
  show ?thesis using old reach link strd by (intro conjI) blast+
qed

theorem argument_validation_witness:
  "check_arguments (PStr ''a'') (PStr ''b'') (PInt (- 1))
     = Some (TypeError Depth_must_be_full_or_non_negative)
   \<and> calculate_ted (total_collaborators (\<lambda>s. tree_ab)) (PStr ''a'') (PStr ''b'') (PInt (- 1))
     = ([], Inl (TypeError Depth_must_be_full_or_non_negative))
   \<and> check_arguments (PInt 3) (PStr ''b'') (PInt 1) = Some (TypeError Sentences_must_be_strings)
   \<and> check_arguments (PStr ''a'') (PStr ''b'') PNone
     = Some (TypeError Depth_must_be_full_or_non_negative)
   \<and> check_arguments (PStr ''a'') (PStr ''b'') (PStr ''deep'') = None
   \<and> ''deep'' \<noteq> ''full''
   \<and> tree_string flat_str tree_ab (max_depth_of (PStr ''deep''))
     = nltk_tree_to_n_bracket_string tree_ab (PStr ''deep'') 0
   \<and> calculate_ted (total_collaborators (\<lambda>s. tree_ab)) (PStr ''a'') (PStr ''b'') (PStr ''deep'')
     = ([''a'', ''b''], Inl (TypeError Int_and_str_not_ordered))
   \<and> check_arguments (PStr ''a'') (PStr ''b'') (PInt 2) = None
   \<and> calculate_ted (total_collaborators (\<lambda>s. if s = ''a'' then tree_ab else tree_ac))
        (PStr ''a'') (PStr ''b'') (PInt 2)
     = ([''a'', ''b''], Inr 1)"
proof -
  let ?X = "total_collaborators (\<lambda>s. tree_ab)"
  let ?Y = "total_collaborators (\<lambda>s. if s = ''a'' then tree_ab else tree_ac)"
  note t = argument_validation [where ?sent1.0 = "PStr ''a''" and ?sent2.0 = "PStr ''b''"
      and depth = "PInt (- 1)" and X = ?X and a = "''a''" and b = "''b''" and d = "''deep''"
      and str = flat_str and t = tree_ab and ?c1.0 = "''a''" and ?c2.0 = "''b''"
      and ?t1.0 = tree_ab and ?t2.0 = tree_ab]
  note u = argument_validation [where ?sent1.0 = "PStr ''a''" and ?sent2.0 = "PStr ''b''"
      and depth = "PInt 2" and X = ?Y and a = "''a''" and b = "''b''" and d = "''deep''"
      and str = flat_str and t = tree_ab and ?c1.0 = "''a''" and ?c2.0 = "''b''"
      and ?t1.0 = tree_ab and ?t2.0 = tree_ac]
  have c1: "check_arguments (PStr ''a'') (PStr ''b'') (PInt (- 1))
     = Some (TypeError Depth_must_be_full_or_non_negative)"
    by (simp add: check_arguments_def)
  have c2: "check_arguments (PInt 3) (PStr ''b'') (PInt 1) = Some (TypeError Sentences_must_be_strings)"
    by (simp add: check_arguments_def)
  have c3: "check_arguments (PStr ''a'') (PStr ''b'') PNone
     = Some (TypeError Depth_must_be_full_or_non_negative)"
    by (simp add: check_arguments_def)
  have c4: "check_arguments (PStr ''a'') (PStr ''b'') (PInt 2) = None"
    by (simp add: check_arguments_def)
  have k: "constituency ?X ''a'' = Inr ''a''" "constituency ?X ''b'' = Inr ''b''"
    "fromstring ?X ''a'' = Inr tree_ab" "fromstring ?X ''b'' = Inr tree_ab"
    by (simp_all add: total_collaborators_def)
  have k': "constituency ?Y (str_value (PStr ''a'')) = Inr ''a''"
    "constituency ?Y (str_value (PStr ''b'')) = Inr ''b''"
    "fromstring ?Y ''a'' = Inr tree_ab" "fromstring ?Y ''b'' = Inr tree_ac"
    by (simp_all add: total_collaborators_def)
  have r: "(case nltk_tree_to_n_bracket_string tree_ab (PInt 2) 0 of
               Inl e \<Rightarrow> Inl e
             | Inr s1 \<Rightarrow>
            (case nltk_tree_to_n_bracket_string tree_ac (PInt 2) 0 of
               Inl e \<Rightarrow> Inl e
             | Inr s2 \<Rightarrow>
            (case from_text (clean_string s1) of
               Inl e \<Rightarrow> Inl e
             | Inr a1 \<Rightarrow>
            (case from_text (clean_string s2) of
               Inl e \<Rightarrow> Inl e
             | Inr a2 \<Rightarrow> Inr (compute_edit_distance a1 a2))))) = Inr 1"
    by code_simp
  have 1: "calculate_ted ?X (PStr ''a'') (PStr ''b'') (PInt (- 1))
     = ([], Inl (TypeError Depth_must_be_full_or_non_negative))"
    using t c1 by blast
  have 2: "check_arguments (PStr ''a'') (PStr ''b'') (PStr ''deep'') = None"
    using t by blast
  have ne: "''deep'' \<noteq> ''full''" by simp
  have 3: "tree_string flat_str tree_ab (max_depth_of (PStr ''deep''))
     = nltk_tree_to_n_bracket_string tree_ab (PStr ''deep'') 0"
    using t ne by blast
  have 4: "calculate_ted ?X (PStr ''a'') (PStr ''b'') (PStr ''deep'')
     = ([''a'', ''b''], Inl (TypeError Int_and_str_not_ordered))"
    using t ne k by blast
  have ne2: "PInt 2 \<noteq> PStr ''full''" by simp
  have "calculate_ted ?Y (PStr ''a'') (PStr ''b'') (PInt 2)
     = ([str_value (PStr ''a''), str_value (PStr ''b'')],
        (case nltk_tree_to_n_bracket_string tree_ab (PInt 2) 0 of
               Inl e \<Rightarrow> Inl e
             | Inr s1 \<Rightarrow>
            (case nltk_tree_to_n_bracket_string tree_ac (PInt 2) 0 of
               Inl e \<Rightarrow> Inl e
             | Inr s2 \<Rightarrow>
            (case from_text (clean_string s1) of
               Inl e \<Rightarrow> Inl e
             | Inr a1 \<Rightarrow>
            (case from_text (clean_string s2) of
               Inl e \<Rightarrow> Inl e
             | Inr a2 \<Rightarrow> Inr (compute_edit_distance a1 a2))))))"
    using u c4 ne2 k' by blast
  then have 5: "calculate_ted ?Y (PStr ''a'') (PStr ''b'') (PInt 2) = ([''a'', ''b''], Inr 1)"
    using r by simp
  show ?thesis using c1 c2 c3 c4 1 2 ne 3 4 5 by (intro conjI)
qed

text \<open>
  C2 fails on the code for a depth that is a string other than \<open>full\<close>: the check accepts
  it, both sentences are handed to the pipeline, and the rendering raises when it compares
  the depth counter with the string.
\<close>

theorem depth_string_passes_validation:
  "calculate_ted (total_collaborators (\<lambda>s. tree_ab)) (PStr ''a'') (PStr ''b'') (PStr ''abc'')
   = ([''a'', ''b''], Inl (TypeError Int_and_str_not_ordered))"
  by code_simp


section \<open>Properties of the parser\<close>

lemma token_balance_flush: "token_balance (flush w @ toks) n = token_balance toks n"
  by (simp add: flush_def)

lemma token_balance_tokenize: "token_balance (tokenize_from w s) n = balance s n"
proof (induction s arbitrary: w n)
  case Nil
  then show ?case using token_balance_flush [of w "[]" n] by simp
next
  case (Cons c cs)
  then show ?case by (simp add: token_balance_flush)
qed

lemma parse_step_open:
  assumes "parse_step tok p = Inr q"
  shows "case tok of
           LParen \<Rightarrow> open_nodes q = open_nodes p + 1
         | RParen \<Rightarrow> open_nodes p > 0 \<and> open_nodes q = open_nodes p - 1
         | Word w \<Rightarrow> open_nodes q = open_nodes p"
  using assms
  by (cases tok)
     (auto simp: open_nodes_def split: if_splits list.splits token.splits prod.splits)

lemma parse_run_balance:
  "parse_run toks p = Inr q \<Longrightarrow> open_nodes q = 0 \<Longrightarrow> token_balance toks (open_nodes p)"
proof (induction toks arbitrary: p)
  case Nil
  then show ?case by simp
next
  case (Cons tok toks)
  then obtain p' where s: "parse_step tok p = Inr p'" and r: "parse_run toks p' = Inr q"
    by (auto split: sum.splits)
  have "token_balance toks (open_nodes p')" using Cons.IH [OF r Cons.prems(2)] .
  then show ?case using parse_step_open [OF s] by (cases tok) auto
qed

lemma parse_step_error: "parse_step tok p = Inl e \<Longrightarrow> e = FormatError"
  by (auto split: if_splits list.splits token.splits prod.splits)

lemma parse_run_error: "parse_run toks p = Inl e \<Longrightarrow> e = FormatError"
proof (induction toks arbitrary: p)
  case Nil
  then show ?case by simp
next
  case (Cons tok toks)
  then show ?case using parse_step_error by (auto split: sum.splits)
qed

lemma parse_error: "parse text = Inl e \<Longrightarrow> e = FormatError"
  unfolding parse_def using parse_run_error
  by (auto split: sum.splits option.splits if_splits)

lemma parse_balanced:
  assumes "parse text = Inr t"
  shows "balanced text"
proof -
  let ?p0 = "\<lparr>frames = [], finished = None, pending = False\<rparr>"
  obtain q where q: "parse_run (tokenize text) ?p0 = Inr q" "frames q = []" "\<not> pending q"
    using assms unfolding parse_def by (auto split: sum.splits option.splits if_splits)
  have "open_nodes q = 0" using q by (simp add: open_nodes_def)
  then have "token_balance (tokenize text) (open_nodes ?p0)"
    using parse_run_balance q(1) by blast
  then show ?thesis
    by (simp add: open_nodes_def tokenize_def token_balance_tokenize balanced_def)
qed

lemma parse_unbalanced: "\<not> balanced text \<Longrightarrow> parse text = Inl FormatError"
proof -
  assume n: "\<not> balanced text"
  show ?thesis
  proof (cases "parse text")
    case (Inl e)
    then show ?thesis using parse_error by blast
  next
    case (Inr t)
    then show ?thesis using parse_balanced n by blast
  qed
qed

lemma parse_run_append:
  "parse_run (a @ b) p = (case parse_run a p of Inl e \<Rightarrow> Inl e | Inr q \<Rightarrow> parse_run b q)"
  by (induction a arbitrary: p) (auto split: sum.splits)

lemma tokenize_from_paren:
  "tokenize_from w (pre @ CHR ''('' # rest) = tokenize_from w pre @ LParen # tokenize_from [] rest"
  by (induction pre arbitrary: w) simp_all

lemma tokenize_from_spaces:
  "\<forall>c \<in> set ws. is_space c \<Longrightarrow> tokenize_from [] (ws @ rest) = tokenize_from [] rest"
proof (induction ws)
  case Nil
  then show ?case by simp
next
  case (Cons c cs)
  have "c \<noteq> CHR ''('' \<and> c \<noteq> CHR '')''"
    using Cons.prems by (auto simp: is_space_def)
  then show ?case using Cons by (simp add: flush_def)
qed

lemma parse_step_pending: "parse_step LParen p = Inr q \<Longrightarrow> pending q"
  by (auto split: if_splits)

lemma parse_run_pending:
  assumes "pending p" and "toks = [] \<or> hd toks = LParen \<or> hd toks = RParen"
  shows "parse_run toks p = Inl FormatError \<or> (\<exists>q. parse_run toks p = Inr q \<and> pending q)"
  using assms by (cases toks) auto

lemma parse_missing_label:
  assumes "\<forall>c \<in> set ws. is_space c"
    and "rest = [] \<or> hd rest = CHR ''('' \<or> hd rest = CHR '')''"
  shows "parse (pre @ ''('' @ ws @ rest) = Inl FormatError"
proof -
  let ?p0 = "\<lparr>frames = [], finished = None, pending = False\<rparr>"
  let ?T = "tokenize_from [] rest"
  have toks: "tokenize (pre @ ''('' @ ws @ rest) = tokenize_from [] pre @ LParen # ?T"
    using tokenize_from_paren [of "[]" pre "ws @ rest"] tokenize_from_spaces [OF assms(1)]
    by (simp add: tokenize_def)
  have hd: "?T = [] \<or> hd ?T = LParen \<or> hd ?T = RParen"
    using assms(2) by (cases rest) (auto simp: flush_def)
  let ?run = "parse_run (tokenize (pre @ ''('' @ ws @ rest)) ?p0"
  have "?run = Inl FormatError \<or> (\<exists>r. ?run = Inr r \<and> pending r)"
  proof (cases "parse_run (tokenize_from [] pre) ?p0")
    case (Inl e)
    then show ?thesis unfolding toks parse_run_append using parse_run_error [OF Inl] by simp
  next
    case (Inr q)
    show ?thesis
    proof (cases "parse_step LParen q")
      case (Inl e)
      then show ?thesis unfolding toks parse_run_append
        using Inr parse_step_error [OF Inl] by simp
    next
      case q': (Inr q')
      have "pending q'" using q' by (rule parse_step_pending)
      then have "parse_run ?T q' = Inl FormatError \<or> (\<exists>r. parse_run ?T q' = Inr r \<and> pending r)"
        using parse_run_pending [OF _ hd] by blast
      then show ?thesis unfolding toks parse_run_append using Inr q' by simp
    qed
  qed
  then show ?thesis unfolding parse_def by (auto split: option.splits)
qed

lemma parse_blank:
  assumes "\<forall>c \<in> set text. is_space c"
  shows "parse text = Inl FormatError"
proof -
  have "tokenize_from [] (text @ []) = tokenize_from [] []"
    using assms by (rule tokenize_from_spaces)
  then have "tokenize text = []" by (simp add: tokenize_def flush_def)
  then show ?thesis by (simp add: parse_def)
qed

lemma parser_error_surfaces:
  assumes "check_arguments (PStr s1) (PStr s2) depth = None"
    and "constituency X s1 = Inr c1" and "constituency X s2 = Inr c2"
    and "fromstring X c1 = Inl e \<or> ((\<exists>t. fromstring X c1 = Inr t) \<and> fromstring X c2 = Inl e)"
  shows "calculate_ted X (PStr s1) (PStr s2) depth = ([s1, s2], Inl e)"
  using assms unfolding calculate_ted_def by auto


text \<open>
  C9: parsing malformed bracketed text fails with a format error: a text with unbalanced
  delimiters (\<open>(S (NP\<close> for example), a text in which an opening parenthesis is followed
  (after whitespace) by a parenthesis or by nothing instead of a label, and an empty or
  blank text. The exception of the parser is the outcome of \<open>calculate_ted\<close>, and each
  sentence has been handed to the pipeline once: nothing is tried again.
\<close>

theorem malformed_text_rejected:
  "(\<not> balanced s \<longrightarrow> parse s = Inl FormatError)
   \<and> ((\<forall>c \<in> set ws. is_space c) \<and> (rest = [] \<or> hd rest = CHR ''('' \<or> hd rest = CHR '')'')
        \<longrightarrow> parse (pre @ ''('' @ ws @ rest) = Inl FormatError)
   \<and> ((\<forall>c \<in> set s. is_space c) \<longrightarrow> parse s = Inl FormatError)
   \<and> parse ''(S (NP'' = Inl FormatError
   \<and> (check_arguments (PStr s1) (PStr s2) depth = None
        \<and> constituency X s1 = Inr c1 \<and> constituency X s2 = Inr c2
        \<and> (fromstring X c1 = Inl e \<or> ((\<exists>t. fromstring X c1 = Inr t) \<and> fromstring X c2 = Inl e))
        \<longrightarrow> calculate_ted X (PStr s1) (PStr s2) depth = ([s1, s2], Inl e))"
proof -
  have "parse ''(S (NP'' = Inl FormatError" by code_simp
  then show ?thesis
    using parse_unbalanced parse_missing_label parse_blank parser_error_surfaces
    by (intro conjI impI) blast+
qed


theorem malformed_text_rejected_witness:
  "\<not> balanced ''(S (NP a)''
   \<and> parse ''(S (NP a)'' = Inl FormatError
   \<and> list_all is_space '' ''
   \<and> parse (''(S '' @ ''('' @ '' '' @ ''(NP a))'') = Inl FormatError
   \<and> parse '' '' = Inl FormatError
   \<and> check_arguments (PStr ''(S (NP'') (PStr ''(S a)'') (PStr ''full'') = None
   \<and> fromstring text_collaborators ''(S (NP'' = Inl FormatError
   \<and> calculate_ted text_collaborators (PStr ''(S (NP'') (PStr ''(S a)'') (PStr ''full'')
      = ([''(S (NP'', ''(S a)''], Inl FormatError)"
proof -
  note t = malformed_text_rejected [of "''(S (NP a)''" "'' ''" "''(NP a))''" "''(S ''"
      "''(S (NP''" "''(S a)''" "PStr ''full''" text_collaborators "''(S (NP''" "''(S a)''"
      FormatError]
  note u = malformed_text_rejected [of "'' ''" "'' ''" "''(NP a))''" "''(S ''"
      "''(S (NP''" "''(S a)''" "PStr ''full''" text_collaborators "''(S (NP''" "''(S a)''"
      FormatError]
  have b: "\<not> balanced ''(S (NP a)''" by code_simp
  have w: "\<forall>c \<in> set '' ''. is_space c" by (simp add: is_space_def)
  have h: "hd ''(NP a))'' = CHR ''(''" by simp
  have c: "check_arguments (PStr ''(S (NP'') (PStr ''(S a)'') (PStr ''full'') = None"
    by (simp add: check_arguments_def)
  have k: "constituency text_collaborators ''(S (NP'' = Inr ''(S (NP''"
    "constituency text_collaborators ''(S a)'' = Inr ''(S a)''"
    by (simp_all add: text_collaborators_def)
  have f: "fromstring text_collaborators ''(S (NP'' = Inl FormatError"
    using t by (simp add: text_collaborators_def)
  have 1: "parse ''(S (NP a)'' = Inl FormatError" using t b by blast
  have 2: "parse (''(S '' @ ''('' @ '' '' @ ''(NP a))'') = Inl FormatError"
    using t w h by blast
  have 3: "parse '' '' = Inl FormatError" using u w by blast
  have 4: "calculate_ted text_collaborators (PStr ''(S (NP'') (PStr ''(S a)'') (PStr ''full'')
      = ([''(S (NP'', ''(S a)''], Inl FormatError)"
    using t c k f by blast
  have l: "list_all is_space '' ''" by (simp add: is_space_def)
  show ?thesis using b 1 l 2 3 c f 4 by (intro conjI)
qed

end
